theory Spec2Isabelle
  imports Main "HOL-Library.AList"
begin

section \<open>The queue monitor of the Hydra queue runner\<close>

text \<open>
  A shallow embedding of \<^verbatim>\<open>src/hydra-queue-runner/queue-monitor.cc\<close>: the step graph
  (\<^verbatim>\<open>State::createStep\<close>), the loader (\<^verbatim>\<open>createBuild\<close> inside
  \<^verbatim>\<open>State::getQueuedBuilds\<close>), \<^verbatim>\<open>Build::propagatePriorities\<close>,
  \<^verbatim>\<open>State::processQueueChange\<close> and \<^verbatim>\<open>State::createJobset\<close>.

  The model is the run of the queue-monitor thread alone. A \<^verbatim>\<open>Sync<T>\<close> lock is then
  the identity, and what the builder threads do to the graph is outside the model.
\<close>

subsection \<open>Data model\<close>

type_synonym Path = string
type_synonym BuildID = nat
type_synonym addr = nat
type_synonym time_t = int

text \<open>A \<^verbatim>\<open>Jobset::ptr\<close> is the key of the jobset in \<^verbatim>\<open>State::jobsets\<close>: that map
  has one object per key and never drops one.\<close>

type_synonym JobsetID = "string \<times> string"

text \<open>What the code reads of a \<^verbatim>\<open>nix::Derivation\<close>. A \<^verbatim>\<open>std::map\<close> is the list of its
  entries in iteration order.\<close>

record Derivation =
  outputs :: "(string \<times> Path) list"
  inputDrvs :: "(Path \<times> string list) list"
  platform :: string
  env :: "(string \<times> string) list"

text \<open>
  A \<^verbatim>\<open>Step\<close> with its \<^verbatim>\<open>Step::State\<close>. Pointers to steps are addresses of the heap
  below. \<^verbatim>\<open>deps\<close> is a \<^verbatim>\<open>std::set<Step::ptr>\<close>: a duplicate-free list kept in
  address order. \<^verbatim>\<open>rdeps\<close> and \<^verbatim>\<open>builds\<close> are vectors of weak pointers; a weak
  pointer to a build is the build's id.
\<close>

record Step =
  drvPath :: Path
  drv :: Derivation
  requiredSystemFeatures :: "string set"
  preferLocalBuild :: bool
  created :: bool
  deps :: "addr list"
  rdeps :: "addr list"
  builds :: "BuildID list"
  jobsets :: "JobsetID set"
  highestGlobalPriority :: int
  highestLocalPriority :: int
  lowestBuildID :: BuildID

record Build =
  build_id :: BuildID
  build_drvPath :: Path
  projectName :: string
  jobsetName :: string
  jobName :: string
  maxSilentTime :: int
  buildTimeout :: int
  timestamp :: time_t
  globalPriority :: int
  localPriority :: int
  jobset :: JobsetID
  toplevel :: "addr option"
  finishedInDB :: bool

datatype BuildStatus = bsSuccess | bsFailed | bsDepFailed | bsAborted | bsUnsupported

datatype BuildStepStatus = bssFailed | bssUnsupported

text \<open>The columns of the \<^verbatim>\<open>Builds\<close> table that the statements of this file read or write.\<close>

record BuildRow =
  row_id :: BuildID
  row_project :: string
  row_jobset :: string
  row_job :: string
  row_drvPath :: Path
  row_maxsilent :: int
  row_timeout :: int
  row_timestamp :: time_t
  row_globalPriority :: int
  row_priority :: int
  row_finished :: nat
  row_busy :: nat
  row_buildStatus :: "BuildStatus option"
  row_startTime :: "time_t option"
  row_stopTime :: "time_t option"
  row_errorMsg :: "string option"
  row_isCachedBuild :: "nat option"

record BuildStepRow =
  bs_build :: BuildID
  bs_drvPath :: Path
  bs_status :: "BuildStepStatus option"
  bs_startTime :: "time_t option"
  bs_stopTime :: "time_t option"

record JobsetRow =
  js_project :: string
  js_name :: string
  js_schedulingShares :: nat

record Jobset =
  shares :: nat
  jsteps :: "(time_t \<times> time_t) list"

text \<open>
  The state of the queue runner that this file touches, the database behind the
  connection, and the locals that the source passes by reference:
  \<^item> \<^verbatim>\<open>steps\<close> maps a derivation path to a weak pointer; \<^verbatim>\<open>heap\<close> holds the step
    objects. A new step takes the next address, a destroyed step leaves \<open>None\<close> at its
    address, and an address is never used again: locking a weak pointer succeeds exactly
    when the heap has a step there.
  \<^item> \<^verbatim>\<open>registry\<close> is \<^verbatim>\<open>State::builds\<close>, a \<^verbatim>\<open>std::map\<close> as the list of its entries.
  \<^item> \<^verbatim>\<open>finishedDrvs\<close> and \<^verbatim>\<open>newSteps\<close> are locals of one \<^verbatim>\<open>createBuild\<close> call,
    \<^verbatim>\<open>newRunnable\<close>, \<^verbatim>\<open>nrAdded\<close>, \<^verbatim>\<open>newIDs\<close>, \<^verbatim>\<open>newBuildsByID\<close> and \<^verbatim>\<open>newBuildsByPath\<close> of
    one \<^verbatim>\<open>getQueuedBuilds\<close> call, \<^verbatim>\<open>lastBuildId\<close> of \<^verbatim>\<open>queueMonitorLoop\<close>.
\<close>

record State =
  steps :: "Path \<rightharpoonup> addr"
  heap :: "Step option list"
  registry :: "(BuildID \<times> Build) list"
  jobsetRegistry :: "(JobsetID \<times> Jobset) list"
  runnable :: "addr list"
  localPlatforms :: "string list"
  buildOne :: BuildID
  lastBuildId :: BuildID
  nrBuildsRead :: nat
  nrBuildsDone :: nat
  nrQueueWakeups :: nat
  dbBuilds :: "BuildRow list"
  dbBuildSteps :: "BuildStepRow list"
  dbJobsets :: "JobsetRow list"
  finishedDrvs :: "Path set"
  newSteps :: "addr list"
  newRunnable :: "addr list"
  nrAdded :: nat
  newIDs :: "BuildID list"
  newBuildsByID :: "(BuildID \<times> Build) list"
  newBuildsByPath :: "(Path \<times> BuildID) list"

text \<open>
  What the file consumes from outside: the store, the derivation reader (\<open>None\<close> when it
  throws), the cached-failure table, the machines (each one as its \<^verbatim>\<open>supportsStep\<close>),
  the clock, and the constant \<^verbatim>\<open>Jobset::schedulingWindow\<close> of \<^verbatim>\<open>state.hh\<close>.
\<close>

record Ext =
  isValidPath :: "Path \<Rightarrow> bool"
  readDerivation :: "Path \<Rightarrow> Derivation option"
  getBuildOutput :: "Derivation \<Rightarrow> nat"
  checkCachedFailure :: "Step \<Rightarrow> bool"
  machines :: "(Step \<Rightarrow> bool) list"
  time0 :: time_t
  schedulingWindow :: int

text \<open>
  How a call ends: it returns, it throws a \<^verbatim>\<open>nix::Error\<close> (the state is the one left
  once the stack is unwound), an \<^verbatim>\<open>assert\<close> fails and the process aborts, or the
  model ran out of fuel.
\<close>

datatype ('a, 's) outcome = Ok 'a 's | Throw string 's | AssertFail | OutOfFuel

subsection \<open>The heap of steps\<close>

definition lookup :: "Step option list \<Rightarrow> addr \<Rightarrow> Step option" where
  "lookup h a = (if a < length h then h ! a else None)"

definition alloc :: "Step \<Rightarrow> State \<Rightarrow> addr \<times> State" where
  "alloc st s = (length (heap s), s\<lparr>heap := heap s @ [Some st]\<rparr>)"

definition modify :: "addr \<Rightarrow> (Step \<Rightarrow> Step) \<Rightarrow> State \<Rightarrow> State" where
  "modify a f s =
     (case lookup (heap s) a of
        None \<Rightarrow> s
      | Some st \<Rightarrow> s\<lparr>heap := (heap s)[a := Some (f st)]\<rparr>)"

definition free :: "addr \<Rightarrow> State \<Rightarrow> State" where
  "free a s = s\<lparr>heap := (heap s)[a := None]\<rparr>"

text \<open>Insertion into a \<^verbatim>\<open>std::set\<close>.\<close>

definition set_insert :: "'a::linorder \<Rightarrow> 'a list \<Rightarrow> 'a list" where
  "set_insert x xs = (if x \<in> set xs then xs else insort x xs)"

text \<open>Modelled from the spec: the member initialisers of \<^verbatim>\<open>Step\<close> in \<^verbatim>\<open>state.hh\<close>,
  which is not among the sources. The spec has \<^verbatim>\<open>created\<close> false until the
  dependencies are populated; the priorities start at the neutral elements of
  \<^verbatim>\<open>max\<close> and \<^verbatim>\<open>min\<close> (a \<^verbatim>\<open>BuildID\<close> is an unsigned 32-bit integer).\<close>

definition newStep :: "Path \<Rightarrow> Step" where
  "newStep p =
     \<lparr>drvPath = p,
      drv = \<lparr>outputs = [], inputDrvs = [], platform = [], env = []\<rparr>,
      requiredSystemFeatures = {}, preferLocalBuild = False, created = False,
      deps = [], rdeps = [], builds = [], jobsets = {},
      highestGlobalPriority = 0, highestLocalPriority = 0,
      lowestBuildID = 4294967295\<rparr>"

text \<open>\<^verbatim>\<open>tokenizeString<std::set<std::string>>\<close> of libnix: the maximal runs of
  characters other than space, tab, newline and carriage return, as a set.\<close>

definition isSep :: "char \<Rightarrow> bool" where
  "isSep c = (c = CHR '' '' \<or> c = CHR 0x09 \<or> c = CHR 0x0A \<or> c = CHR 0x0D)"

fun tokens :: "string \<Rightarrow> string \<Rightarrow> string list" where
  "tokens [] cur = (if cur = [] then [] else [cur])"
| "tokens (c # cs) cur =
     (if isSep c then (if cur = [] then tokens cs [] else cur # tokens cs [])
      else tokens cs (cur @ [c]))"

definition tokenizeString :: "string \<Rightarrow> string set" where
  "tokenizeString str = set (tokens str [])"

subsection \<open>createStep\<close>

text \<open>
  Lines 313 to 346, under the lock of \<^verbatim>\<open>steps\<close>. The entry of the path is looked up
  and its weak pointer locked; a stale entry is erased and, like a missing one, replaced by
  a new step. The result is the step, \<^verbatim>\<open>isNew\<close> and the state, or \<open>None\<close> when
  \<^verbatim>\<open>assert(step_->created != isNew)\<close> fails.
\<close>

definition findStep :: "Path \<Rightarrow> State \<Rightarrow> addr option" where
  "findStep p s =
     (case steps s p of
        None \<Rightarrow> None
      | Some a \<Rightarrow> (case lookup (heap s) a of None \<Rightarrow> None | Some st \<Rightarrow> Some a))"

definition attach :: "BuildID option \<Rightarrow> addr option \<Rightarrow> Step \<Rightarrow> Step" where
  "attach referringBuild referringStep st =
     (let st1 = (case referringBuild of None \<Rightarrow> st
                 | Some b \<Rightarrow> st\<lparr>builds := builds st @ [b]\<rparr>)
      in (case referringStep of None \<Rightarrow> st1
          | Some r \<Rightarrow> st1\<lparr>rdeps := rdeps st1 @ [r]\<rparr>))"

definition getStep ::
  "Path \<Rightarrow> BuildID option \<Rightarrow> addr option \<Rightarrow> State \<Rightarrow> (addr \<times> bool \<times> State) option" where
  "getStep p referringBuild referringStep s =
     (let (a, isNew, s1) =
        (case findStep p s of
           Some a \<Rightarrow> (a, False, s)
         | None \<Rightarrow> (let (a, s') = alloc (newStep p) s in (a, True, s')))
      in case lookup (heap s1) a of
           None \<Rightarrow> None
         | Some st \<Rightarrow>
             if created st = isNew then None
             else Some (a, isNew,
                        (modify a (attach referringBuild referringStep) s1)
                          \<lparr>steps := (steps s1)(p \<mapsto> a)\<rparr>))"

text \<open>Lines 356 to 366: the derivation is stored in the new step with its required system
  features and \<^verbatim>\<open>preferLocalBuild\<close>.\<close>

definition initStep :: "string list \<Rightarrow> Derivation \<Rightarrow> Step \<Rightarrow> Step" where
  "initStep lp d st =
     (let st1 = st\<lparr>drv := d\<rparr>;
          st2 = (case map_of (env d) ''requiredSystemFeatures'' of
                   None \<Rightarrow> st1
                 | Some v \<Rightarrow> st1\<lparr>requiredSystemFeatures := tokenizeString v\<rparr>)
      in st2\<lparr>preferLocalBuild :=
               (case map_of (env d) ''preferLocalBuild'' of
                  None \<Rightarrow> False
                | Some v \<Rightarrow> v = ''1'' \<and> platform d \<in> set lp)\<rparr>)"

text \<open>Lines 369 to 375.\<close>

definition allValid :: "Ext \<Rightarrow> Derivation \<Rightarrow> bool" where
  "allValid x d = list_all (\<lambda>i. isValidPath x (snd i)) (outputs d)"

text \<open>Lines 398 to 404. \<open>None\<close> when \<^verbatim>\<open>assert(!step_->created)\<close> fails.\<close>

definition finishStep :: "addr \<Rightarrow> State \<Rightarrow> State option" where
  "finishStep a s =
     (case lookup (heap s) a of
        None \<Rightarrow> None
      | Some st \<Rightarrow>
          if created st then None
          else (let s1 = modify a (\<lambda>st. st\<lparr>created := True\<rparr>) s
                in Some (if deps st = []
                         then s1\<lparr>newRunnable := set_insert a (newRunnable s1)\<rparr>
                         else s1)))"

text \<open>Lines 356 to 366 and 385: the new step gets its derivation and enters
  \<^verbatim>\<open>newSteps\<close>.\<close>

definition beginStep :: "addr \<Rightarrow> Derivation \<Rightarrow> State \<Rightarrow> State" where
  "beginStep a d s =
     (let s2 = modify a (initStep (localPlatforms s) d) s
      in s2\<lparr>newSteps := set_insert a (newSteps s2)\<rparr>)"

text \<open>Lines 356 to 366 and 378 to 381: the outputs of the new step are all valid. The path
  enters \<^verbatim>\<open>finishedDrvs\<close>; the step is only held by the local \<^verbatim>\<open>step\<close> and is
  destroyed on return.\<close>

definition dropValid :: "addr \<Rightarrow> Path \<Rightarrow> Derivation \<Rightarrow> State \<Rightarrow> State" where
  "dropValid a p d s =
     (let s2 = modify a (initStep (localPlatforms s) d) s
      in free a (s2\<lparr>finishedDrvs := insert p (finishedDrvs s2)\<rparr>))"

text \<open>Lines 390 to 393.\<close>

definition addDep :: "addr \<Rightarrow> addr option \<Rightarrow> State \<Rightarrow> State" where
  "addDep a dep s =
     (case dep of
        None \<Rightarrow> s
      | Some d \<Rightarrow> modify a (\<lambda>st. st\<lparr>deps := set_insert d (deps st)\<rparr>) s)"

text \<open>
  \<^verbatim>\<open>State::createStep\<close>, and its loop over \<^verbatim>\<open>step->drv.inputDrvs\<close> (lines 388 to 394)
  as \<open>createDeps\<close>. The recursion follows the input derivations of the store, so the
  model takes fuel: one unit for each nested call. A new step whose derivation cannot be
  read is only held by the local \<^verbatim>\<open>step\<close>, and is destroyed when the error leaves the
  call.
\<close>

fun createStep ::
  "nat \<Rightarrow> Ext \<Rightarrow> Path \<Rightarrow> BuildID option \<Rightarrow> addr option \<Rightarrow> State \<Rightarrow> (addr option, State) outcome"
and createDeps ::
  "nat \<Rightarrow> Ext \<Rightarrow> addr \<Rightarrow> Path list \<Rightarrow> State \<Rightarrow> (unit, State) outcome"
where
  "createStep 0 x p referringBuild referringStep s = OutOfFuel"
| "createStep (Suc n) x p referringBuild referringStep s =
     (if p \<in> finishedDrvs s then Ok None s
      else (case getStep p referringBuild referringStep s of
              None \<Rightarrow> AssertFail
            | Some (a, isNew, s1) \<Rightarrow>
                if \<not> isNew then Ok (Some a) s1
                else (case readDerivation x p of
                        None \<Rightarrow> Throw (''error: opening file '' @ p) (free a s1)
                      | Some d \<Rightarrow>
                          if allValid x d then Ok None (dropValid a p d s1)
                          else (case createDeps n x a (map fst (inputDrvs d)) (beginStep a d s1) of
                                  Ok u s3 \<Rightarrow>
                                    (case finishStep a s3 of
                                       None \<Rightarrow> AssertFail
                                     | Some s4 \<Rightarrow> Ok (Some a) s4)
                                | Throw e s3 \<Rightarrow> Throw e s3
                                | AssertFail \<Rightarrow> AssertFail
                                | OutOfFuel \<Rightarrow> OutOfFuel))))"
| "createDeps n x a [] s = Ok () s"
| "createDeps n x a (i # is) s =
     (case createStep n x i None (Some a) s of
        Ok dep s1 \<Rightarrow> createDeps n x a is (addDep a dep s1)
      | Throw e s1 \<Rightarrow> Throw e s1
      | AssertFail \<Rightarrow> AssertFail
      | OutOfFuel \<Rightarrow> OutOfFuel)"

subsection \<open>Maps of the standard library\<close>

text \<open>A \<^verbatim>\<open>std::map\<close> is the list of its entries in key order: \<open>map_of\<close> is \<^verbatim>\<open>find\<close>,
  \<open>AList.delete\<close> is \<^verbatim>\<open>erase\<close>, and \<open>map_assign\<close> is \<^verbatim>\<open>m[k] = v\<close>.\<close>

fun map_assign :: "'k::linorder \<Rightarrow> 'v \<Rightarrow> ('k \<times> 'v) list \<Rightarrow> ('k \<times> 'v) list" where
  "map_assign k v [] = [(k, v)]"
| "map_assign k v ((k', v') # m) =
     (if k < k' then (k, v) # (k', v') # m
      else if k = k' then (k, v) # m
      else (k', v') # map_assign k v m)"

subsection \<open>The database\<close>

text \<open>\<^verbatim>\<open>update Builds set ... where ...\<close>\<close>

definition updateBuilds :: "(BuildRow \<Rightarrow> bool) \<Rightarrow> (BuildRow \<Rightarrow> BuildRow) \<Rightarrow> State \<Rightarrow> State" where
  "updateBuilds cond f s = s\<lparr>dbBuilds := map (\<lambda>r. if cond r then f r else r) (dbBuilds s)\<rparr>"

text \<open>The statement of lines 114 to 119.\<close>

definition abortBuildInDB :: "BuildID \<Rightarrow> time_t \<Rightarrow> State \<Rightarrow> State" where
  "abortBuildInDB i now s =
     updateBuilds (\<lambda>r. row_id r = i \<and> row_finished r = 0)
       (\<lambda>r. r\<lparr>row_finished := 1, row_busy := 0, row_buildStatus := Some bsAborted,
               row_startTime := Some now, row_stopTime := Some now,
               row_errorMsg := Some ''derivation was garbage-collected prior to build''\<rparr>) s"

text \<open>The statement of lines 193 to 198.\<close>

definition failBuildInDB :: "BuildID \<Rightarrow> BuildStatus \<Rightarrow> time_t \<Rightarrow> State \<Rightarrow> State" where
  "failBuildInDB i buildStatus now s =
     updateBuilds (\<lambda>r. row_id r = i \<and> row_finished r = 0)
       (\<lambda>r. r\<lparr>row_finished := 1, row_busy := 0, row_buildStatus := Some buildStatus,
               row_startTime := Some now, row_stopTime := Some now,
               row_isCachedBuild := Some (if buildStatus \<noteq> bsUnsupported then 1 else 0)\<rparr>) s"

text \<open>Modelled from the spec: \<^verbatim>\<open>State::createBuildStep\<close>, which is not among the
  sources. It inserts a \<^verbatim>\<open>BuildSteps\<close> row for the build with the step and the status;
  the loader passes the start time 0, no machine and no stop time.\<close>

definition createBuildStep :: "time_t \<Rightarrow> Build \<Rightarrow> Step \<Rightarrow> BuildStepStatus \<Rightarrow> State \<Rightarrow> State" where
  "createBuildStep startTime build st status s =
     s\<lparr>dbBuildSteps := dbBuildSteps s @
         [\<lparr>bs_build = build_id build, bs_drvPath = drvPath st, bs_status = Some status,
           bs_startTime = (if startTime = 0 then None else Some startTime),
           bs_stopTime = None\<rparr>]\<rparr>"

text \<open>Modelled from the spec: \<^verbatim>\<open>State::markSucceededBuild\<close>, which is not among the
  sources. It finalizes the \<^verbatim>\<open>Builds\<close> row as a success with the given times and
  \<^verbatim>\<open>isCachedBuild\<close>; the spec gives it no other effect.\<close>

definition markSucceededBuild :: "Build \<Rightarrow> nat \<Rightarrow> bool \<Rightarrow> time_t \<Rightarrow> time_t \<Rightarrow> State \<Rightarrow> State" where
  "markSucceededBuild build res isCachedBuild startTime stopTime s =
     updateBuilds (\<lambda>r. row_id r = build_id build \<and> row_finished r = 0)
       (\<lambda>r. r\<lparr>row_finished := 1, row_busy := 0, row_buildStatus := Some bsSuccess,
               row_startTime := Some startTime, row_stopTime := Some stopTime,
               row_isCachedBuild := Some (if isCachedBuild then 1 else 0)\<rparr>) s"

text \<open>Modelled from the spec: \<^verbatim>\<open>State::makeRunnable\<close>, which is not among the sources,
  publishes the step into the runnable set.\<close>

definition makeRunnable :: "addr \<Rightarrow> State \<Rightarrow> State" where
  "makeRunnable a s = s\<lparr>runnable := runnable s @ [a]\<rparr>"

text \<open>The query of lines 69 to 72: stable sorting by id, then by descending priority.\<close>

definition queuedRows :: "BuildID \<Rightarrow> BuildRow list \<Rightarrow> BuildRow list" where
  "queuedRows lastId rows =
     sort_key (\<lambda>r. - row_globalPriority r)
       (sort_key row_id (filter (\<lambda>r. lastId < row_id r \<and> row_finished r = 0) rows))"

subsection \<open>createJobset\<close>

text \<open>Modelled from the spec: \<^verbatim>\<open>Jobset::addStep\<close>, which is not among the sources,
  records the start and the duration of a step.\<close>

definition addStep :: "time_t \<Rightarrow> time_t \<Rightarrow> Jobset \<Rightarrow> Jobset" where
  "addStep startTime duration j = j\<lparr>jsteps := jsteps j @ [(startTime, duration)]\<rparr>"

text \<open>The query of lines 431 to 434, as the pairs of start and stop time.\<close>

definition recentSteps :: "time_t \<Rightarrow> string \<Rightarrow> string \<Rightarrow> State \<Rightarrow> (time_t \<times> time_t) list" where
  "recentSteps since p j s =
     concat (map (\<lambda>st.
        case (bs_startTime st, bs_stopTime st) of
          (Some t0, Some t1) \<Rightarrow>
            (if since < t1 then
               map (\<lambda>b. (t0, t1))
                 (filter (\<lambda>b. row_id b = bs_build st \<and> row_project b = p \<and> row_jobset b = j)
                    (dbBuilds s))
             else [])
        | _ \<Rightarrow> []) (dbBuildSteps s))"

definition createJobset :: "Ext \<Rightarrow> string \<Rightarrow> string \<Rightarrow> State \<Rightarrow> (JobsetID, State) outcome" where
  "createJobset x p j s =
     (case map_of (jobsetRegistry s) (p, j) of
        Some js \<Rightarrow> Ok (p, j) s
      | None \<Rightarrow>
          (case filter (\<lambda>r. js_project r = p \<and> js_name r = j) (dbJobsets s) of
             [] \<Rightarrow> Throw ''missing jobset - can't happen'' s
           | r # rs \<Rightarrow>
               (let sh = (if js_schedulingShares r = 0 then 1 else js_schedulingShares r);
                    js = fold (\<lambda>(t0, t1). addStep t0 (t1 - t0))
                           (recentSteps (time0 x - schedulingWindow x * 10) p j s)
                           \<lparr>shares = sh, jsteps = []\<rparr>
                in Ok (p, j) (s\<lparr>jobsetRegistry := AList.update (p, j) js (jobsetRegistry s)\<rparr>))))"


subsection \<open>Traversal of the dependencies\<close>

text \<open>
  Modelled from the spec: \<^verbatim>\<open>visitDependencies\<close>, which is not among the sources. From
  the start it traverses all steps reachable through \<^verbatim>\<open>deps\<close>, with a set of the steps
  already queued, and calls the visitor on each. \<open>walk\<close> is the traversal: the steps in
  the order they are visited. A dependency is a strong pointer, so the steps it meets are
  alive; the model skips an address without a step.
\<close>

definition fresh :: "Step option list \<Rightarrow> addr list \<Rightarrow> addr list \<Rightarrow> addr list" where
  "fresh h queued ds = filter (\<lambda>d. d \<notin> set queued \<and> lookup h d \<noteq> None) (remdups ds)"

function walk :: "Step option list \<Rightarrow> addr list \<Rightarrow> addr list \<Rightarrow> addr list" where
  "walk h [] queued = []"
| "walk h (a # todo) queued =
     (case lookup h a of
        None \<Rightarrow> walk h todo queued
      | Some st \<Rightarrow>
          a # walk h (todo @ fresh h queued (deps st)) (queued @ fresh h queued (deps st)))"
  by pat_completeness auto
termination
proof (relation "measure (\<lambda>(h, todo, queued).
         (length h - card (set queued \<inter> {..<length h})) + length todo)")
  fix h :: "Step option list" and a :: addr and todo queued :: "addr list" and st :: Step
  let ?new = "fresh h queued (deps st)"
  have d: "distinct ?new" and q: "set ?new \<inter> set queued = {}"
    and b: "set ?new \<subseteq> {..<length h}"
    by (auto simp: fresh_def lookup_def split: if_splits)
  have "set (queued @ ?new) \<inter> {..<length h} = (set queued \<inter> {..<length h}) \<union> set ?new"
    using b by auto
  moreover have "(set queued \<inter> {..<length h}) \<inter> set ?new = {}"
    using q by auto
  ultimately have c: "card (set (queued @ ?new) \<inter> {..<length h})
      = card (set queued \<inter> {..<length h}) + length ?new"
    using d by (simp add: card_Un_disjoint distinct_card)
  have "card (set (queued @ ?new) \<inter> {..<length h}) \<le> card {..<length h}"
    by (rule card_mono) auto
  then show "((h, todo @ ?new, queued @ ?new), (h, a # todo, queued))
      \<in> measure (\<lambda>(h, todo, queued).
            (length h - card (set queued \<inter> {..<length h})) + length todo)"
    using c by simp
qed simp_all

definition visitDependencies :: "(Step \<Rightarrow> Step) \<Rightarrow> addr \<Rightarrow> State \<Rightarrow> State" where
  "visitDependencies visitor start s =
     fold (\<lambda>a. modify a visitor) (walk (heap s) [start] [start]) s"

subsection \<open>propagatePriorities\<close>

text \<open>The visitor of lines 260 to 266.\<close>

definition bump :: "Build \<Rightarrow> Step \<Rightarrow> Step" where
  "bump b st =
     st\<lparr>highestGlobalPriority := max (highestGlobalPriority st) (globalPriority b),
        highestLocalPriority := max (highestLocalPriority st) (localPriority b),
        lowestBuildID := min (lowestBuildID st) (build_id b),
        jobsets := insert (jobset b) (jobsets st)\<rparr>"

text \<open>Both callers pass a build whose \<^verbatim>\<open>toplevel\<close> is set.\<close>

definition propagatePriorities :: "Build \<Rightarrow> State \<Rightarrow> State" where
  "propagatePriorities b s =
     (case toplevel b of
        None \<Rightarrow> s
      | Some t \<Rightarrow> visitDependencies (bump b) t s)"

subsection \<open>Destruction of steps\<close>

text \<open>
  A step is a \<^verbatim>\<open>std::shared_ptr\<close> object: it is destroyed when no strong pointer is
  left. The strong pointers are the \<^verbatim>\<open>toplevel\<close> of a build, the \<^verbatim>\<open>deps\<close> of a
  step, and the locals \<^verbatim>\<open>newSteps\<close> and \<^verbatim>\<open>newRunnable\<close>. When a local set goes away,
  \<open>release\<close> destroys those of its steps that the given roots do not reach.
\<close>

definition registryRoots :: "State \<Rightarrow> addr list" where
  "registryRoots s =
     concat (map (\<lambda>(i, b). case toplevel b of None \<Rightarrow> [] | Some t \<Rightarrow> [t]) (registry s))"

definition release :: "addr list \<Rightarrow> addr list \<Rightarrow> State \<Rightarrow> State" where
  "release roots cands s =
     (let live = walk (heap s) roots roots
      in fold (\<lambda>a s. if a \<in> set live then s else free a s) cands s)"

subsection \<open>The loader\<close>

text \<open>Lines 164 to 186: the status of the build and of the step that a new step asks for.\<close>

definition classify :: "Ext \<Rightarrow> addr \<Rightarrow> addr \<Rightarrow> Step \<Rightarrow> BuildStatus \<times> BuildStepStatus" where
  "classify x step r st =
     (if checkCachedFailure x st
      then (if step = r then bsFailed else bsDepFailed, bssFailed)
      else if \<not> list_ex (\<lambda>m. m st) (machines x) then (bsUnsupported, bssUnsupported)
      else (bsSuccess, bssFailed))"

text \<open>The loop of lines 163 to 206 up to its \<^verbatim>\<open>break\<close>: the first new step whose status
  is not success.\<close>

fun firstBad ::
  "Ext \<Rightarrow> addr \<Rightarrow> addr list \<Rightarrow> State \<Rightarrow> (addr \<times> Step \<times> BuildStatus \<times> BuildStepStatus) option" where
  "firstBad x step [] s = None"
| "firstBad x step (r # rs) s =
     (case lookup (heap s) r of
        None \<Rightarrow> firstBad x step rs s
      | Some st \<Rightarrow>
          (let (buildStatus, buildStepStatus) = classify x step r st
           in if buildStatus \<noteq> bsSuccess then Some (r, st, buildStatus, buildStepStatus)
              else firstBad x step rs s))"

text \<open>Lines 143 to 223: what \<^verbatim>\<open>createBuild\<close> does with the step it got. The result is
  the build object as the call leaves it.\<close>

definition finishBuild :: "Ext \<Rightarrow> Build \<Rightarrow> addr option \<Rightarrow> State \<Rightarrow> (Build, State) outcome" where
  "finishBuild x build step s =
     (case step of
        None \<Rightarrow>
          (case readDerivation x (build_drvPath build) of
             None \<Rightarrow> Throw (''error: opening file '' @ build_drvPath build) s
           | Some d \<Rightarrow>
               Ok (build\<lparr>finishedInDB := True\<rparr>)
                  (markSucceededBuild build (getBuildOutput x d) True (time0 x) (time0 x) s))
      | Some a \<Rightarrow>
          (case firstBad x a (newSteps s) s of
             Some (r, st, buildStatus, buildStepStatus) \<Rightarrow>
               (if \<not> finishedInDB build
                then Ok (build\<lparr>finishedInDB := True\<rparr>)
                       ((failBuildInDB (build_id build) buildStatus (time0 x)
                           (createBuildStep 0 build st buildStepStatus s))
                          \<lparr>nrBuildsDone := nrBuildsDone s + 1\<rparr>)
                else Ok build s)
           | None \<Rightarrow>
               (let build' = build\<lparr>toplevel := Some a\<rparr>;
                    s1 = (if \<not> finishedInDB build
                          then s\<lparr>registry := map_assign (build_id build) build' (registry s)\<rparr>
                          else s)
                in Ok build' (propagatePriorities build' s1))))"

text \<open>Lines 136 to 139: the queued build, not loaded yet, whose derivation is the one of
  the new step. \<^verbatim>\<open>find\<close> on the multimap gives the entry inserted first.\<close>

definition nestedBuild :: "addr \<Rightarrow> State \<Rightarrow> Build option" where
  "nestedBuild r s =
     (case lookup (heap s) r of
        None \<Rightarrow> None
      | Some st \<Rightarrow>
          (case map_of (newBuildsByPath s) (drvPath st) of
             None \<Rightarrow> None
           | Some i \<Rightarrow> map_of (newBuildsByID s) i))"

text \<open>Lines 105 to 107, and the empty \<^verbatim>\<open>newSteps\<close> and \<^verbatim>\<open>finishedDrvs\<close> of the call
  (lines 127 and 128).\<close>

definition enterBuild :: "Build \<Rightarrow> State \<Rightarrow> State" where
  "enterBuild build s =
     s\<lparr>nrAdded := nrAdded s + 1,
       newBuildsByID := AList.delete (build_id build) (newBuildsByID s)\<rparr>"

definition newFrame :: "State \<Rightarrow> State" where
  "newFrame s = s\<lparr>newSteps := [], finishedDrvs := {}\<rparr>"

text \<open>Lines 109 to 125, for a build that is not finished in the database.\<close>

definition abortBuild :: "Ext \<Rightarrow> Build \<Rightarrow> State \<Rightarrow> State" where
  "abortBuild x build s =
     (abortBuildInDB (build_id build) (time0 x) s)\<lparr>nrBuildsDone := nrBuildsDone s + 1\<rparr>"

text \<open>When a \<^verbatim>\<open>createBuild\<close> call ends, its \<^verbatim>\<open>newSteps\<close> and \<^verbatim>\<open>finishedDrvs\<close> go
  away, and those of the caller (\<open>s0\<close>) are the current ones again.\<close>

definition leaveFrame :: "State \<Rightarrow> State \<Rightarrow> State" where
  "leaveFrame s0 s =
     (release (registryRoots s @ newRunnable s) (newSteps s) s)
       \<lparr>newSteps := newSteps s0, finishedDrvs := finishedDrvs s0\<rparr>"

text \<open>
  The closure \<^verbatim>\<open>createBuild\<close> (lines 104 to 224), and its loop over the new steps
  (lines 135 to 141) as \<open>loadNested\<close>. The closure calls itself from that loop, so the
  model takes fuel.
\<close>

fun createBuild :: "nat \<Rightarrow> Ext \<Rightarrow> Build \<Rightarrow> State \<Rightarrow> (Build, State) outcome"
and loadNested :: "nat \<Rightarrow> Ext \<Rightarrow> addr list \<Rightarrow> State \<Rightarrow> (unit, State) outcome"
where
  "createBuild 0 x build s0 = OutOfFuel"
| "createBuild (Suc n) x build s0 =
     (if \<not> isValidPath x (build_drvPath build)
      then (if \<not> finishedInDB build
            then Ok (build\<lparr>finishedInDB := True\<rparr>) (abortBuild x build (enterBuild build s0))
            else Ok build (enterBuild build s0))
      else (case createStep n x (build_drvPath build) (Some (build_id build)) None
                   (newFrame (enterBuild build s0)) of
              Ok step s1 \<Rightarrow>
                (case loadNested n x (newSteps s1) s1 of
                   Ok u s2 \<Rightarrow>
                     (case finishBuild x build step s2 of
                        Ok b s3 \<Rightarrow> Ok b (leaveFrame s0 s3)
                      | Throw e s3 \<Rightarrow> Throw e (leaveFrame s0 s3)
                      | AssertFail \<Rightarrow> AssertFail
                      | OutOfFuel \<Rightarrow> OutOfFuel)
                 | Throw e s2 \<Rightarrow> Throw e (leaveFrame s0 s2)
                 | AssertFail \<Rightarrow> AssertFail
                 | OutOfFuel \<Rightarrow> OutOfFuel)
            | Throw e s1 \<Rightarrow> Throw e (leaveFrame s0 s1)
            | AssertFail \<Rightarrow> AssertFail
            | OutOfFuel \<Rightarrow> OutOfFuel))"
| "loadNested n x [] s = Ok () s"
| "loadNested n x (r # rs) s =
     (case nestedBuild r s of
        None \<Rightarrow> loadNested n x rs s
      | Some b \<Rightarrow>
          (case createBuild n x b s of
             Ok b' s1 \<Rightarrow> loadNested n x rs s1
           | Throw e s1 \<Rightarrow> Throw e s1
           | AssertFail \<Rightarrow> AssertFail
           | OutOfFuel \<Rightarrow> OutOfFuel))"

subsection \<open>getQueuedBuilds\<close>

text \<open>Lines 81 to 92: the build object of a row, with the member initialisers of
  \<^verbatim>\<open>Build\<close> for the top-level step and \<^verbatim>\<open>finishedInDB\<close>.\<close>

definition buildOfRow :: "BuildRow \<Rightarrow> JobsetID \<Rightarrow> Build" where
  "buildOfRow row js =
     \<lparr>build_id = row_id row, build_drvPath = row_drvPath row,
      projectName = row_project row, jobsetName = row_jobset row,
      jobName = row_job row, maxSilentTime = row_maxsilent row,
      buildTimeout = row_timeout row, timestamp = row_timestamp row,
      globalPriority = row_globalPriority row,
      localPriority = row_priority row, jobset = js,
      toplevel = None, finishedInDB = False\<rparr>"

text \<open>The body of the loop over the rows of the query (lines 75 to 96).\<close>

definition readRow :: "Ext \<Rightarrow> BuildRow \<Rightarrow> State \<Rightarrow> (unit, State) outcome" where
  "readRow x row s =
     (let i = row_id row in
      if buildOne s \<noteq> 0 \<and> i \<noteq> buildOne s then Ok () s
      else (let s1 = (if lastBuildId s < i then s\<lparr>lastBuildId := i\<rparr> else s) in
            if map_of (registry s1) i \<noteq> None then Ok () s1
            else (case createJobset x (row_project row) (row_jobset row) s1 of
                    Ok js s2 \<Rightarrow>
                      Ok () (s2\<lparr>newIDs := newIDs s2 @ [i],
                                 newBuildsByID := map_assign i (buildOfRow row js) (newBuildsByID s2),
                                 newBuildsByPath :=
                                   newBuildsByPath s2 @ [(row_drvPath row, i)]\<rparr>)
                  | Throw e s2 \<Rightarrow> Throw e s2
                  | AssertFail \<Rightarrow> AssertFail
                  | OutOfFuel \<Rightarrow> OutOfFuel)))"

fun readRows :: "Ext \<Rightarrow> BuildRow list \<Rightarrow> State \<Rightarrow> (unit, State) outcome" where
  "readRows x [] s = Ok () s"
| "readRows x (row # rows) s =
     (case readRow x row s of
        Ok u s1 \<Rightarrow> readRows x rows s1
      | Throw e s1 \<Rightarrow> Throw e s1
      | AssertFail \<Rightarrow> AssertFail
      | OutOfFuel \<Rightarrow> OutOfFuel)"

text \<open>\<^verbatim>\<open>newRunnable.clear()\<close>: the steps that only this set held are destroyed.\<close>

definition clearNewRunnable :: "State \<Rightarrow> State" where
  "clearNewRunnable s = release (registryRoots s) (newRunnable s) (s\<lparr>newRunnable := []\<rparr>)"

text \<open>The decimal digits of a build id, for the prefix of line 239.\<close>

fun decimal :: "nat \<Rightarrow> string" where
  "decimal n =
     (if n < 10 then [char_of (48 + n)]
      else decimal (n div 10) @ [char_of (48 + n mod 10)])"

text \<open>The loop of lines 229 to 250.\<close>

fun loadBuilds :: "nat \<Rightarrow> Ext \<Rightarrow> BuildID list \<Rightarrow> State \<Rightarrow> (unit, State) outcome" where
  "loadBuilds n x [] s = Ok () s"
| "loadBuilds n x (i # ids) s =
     (case map_of (newBuildsByID s) i of
        None \<Rightarrow> loadBuilds n x ids s
      | Some build \<Rightarrow>
          (case createBuild n x build ((clearNewRunnable s)\<lparr>nrAdded := 0\<rparr>) of
             Ok b s1 \<Rightarrow>
               loadBuilds n x ids
                 ((fold makeRunnable (newRunnable s1) s1)
                    \<lparr>nrBuildsRead := nrBuildsRead s1 + nrAdded s1\<rparr>)
           | Throw e s1 \<Rightarrow>
               Throw (''while loading build '' @ decimal (build_id build) @ '': '' @ e) s1
           | AssertFail \<Rightarrow> AssertFail
           | OutOfFuel \<Rightarrow> OutOfFuel))"

text \<open>When \<^verbatim>\<open>getQueuedBuilds\<close> ends, its locals go away.\<close>

definition leavePass :: "State \<Rightarrow> State" where
  "leavePass s =
     (clearNewRunnable s)\<lparr>newIDs := [], newBuildsByID := [], newBuildsByPath := []\<rparr>"

definition getQueuedBuilds :: "nat \<Rightarrow> Ext \<Rightarrow> State \<Rightarrow> (unit, State) outcome" where
  "getQueuedBuilds n x s =
     (case readRows x (queuedRows (lastBuildId s) (dbBuilds s))
             (s\<lparr>newIDs := [], newBuildsByID := [], newBuildsByPath := [],
                newRunnable := []\<rparr>) of
        Ok u s1 \<Rightarrow>
          (case loadBuilds n x (newIDs s1) s1 of
             Ok u s2 \<Rightarrow> Ok () (leavePass s2)
           | Throw e s2 \<Rightarrow> Throw e (leavePass s2)
           | AssertFail \<Rightarrow> AssertFail
           | OutOfFuel \<Rightarrow> OutOfFuel)
      | Throw e s1 \<Rightarrow> Throw e (leavePass s1)
      | AssertFail \<Rightarrow> AssertFail
      | OutOfFuel \<Rightarrow> OutOfFuel)"

subsection \<open>processQueueChange\<close>

text \<open>Lines 273 to 279. The values the model gives to \<^verbatim>\<open>globalPriority\<close> are those that
  \<^verbatim>\<open>int\<close> and \<^verbatim>\<open>BuildID\<close> share, for which reading the column as a \<^verbatim>\<open>BuildID\<close>
  and storing it as an \<^verbatim>\<open>int\<close> changes nothing.\<close>

definition currentIds :: "State \<Rightarrow> (BuildID \<times> int) list" where
  "currentIds s =
     fold (\<lambda>r m. map_assign (row_id r) (row_globalPriority r) m)
       (filter (\<lambda>r. row_finished r = 0) (dbBuilds s)) []"

text \<open>Lines 285 to 290: the build leaves the registry, and with it the last strong pointer
  to the steps that only this build reached.\<close>

definition discardBuild :: "BuildID \<Rightarrow> Build \<Rightarrow> State \<Rightarrow> State" where
  "discardBuild i b s =
     (let s1 = s\<lparr>registry := AList.delete i (registry s)\<rparr>
      in release (registryRoots s1)
           (case toplevel b of None \<Rightarrow> [] | Some t \<Rightarrow> walk (heap s) [t] [t]) s1)"

text \<open>The body of the loop of lines 283 to 297, for the entry with key \<open>i\<close>.\<close>

definition queueChangeStep :: "(BuildID \<times> int) list \<Rightarrow> BuildID \<Rightarrow> State \<Rightarrow> State" where
  "queueChangeStep cur i s =
     (case map_of (registry s) i of
        None \<Rightarrow> s
      | Some b \<Rightarrow>
          (case map_of cur i of
             None \<Rightarrow> discardBuild i b s
           | Some p \<Rightarrow>
               if globalPriority b < p
               then (let b' = b\<lparr>globalPriority := p\<rparr>
                     in propagatePriorities b'
                          (s\<lparr>registry := map_assign i b' (registry s)\<rparr>))
               else s))"

definition processQueueChange :: "State \<Rightarrow> State" where
  "processQueueChange s = fold (queueChangeStep (currentIds s)) (map fst (registry s)) s"

subsection \<open>Relations between states\<close>

text \<open>The state a call leaves behind, when it returns or throws.\<close>

definition finalState :: "('a, 's) outcome \<Rightarrow> 's option" where
  "finalState r = (case r of Ok v s \<Rightarrow> Some s | Throw e s \<Rightarrow> Some s | _ \<Rightarrow> None)"

text \<open>\<open>graphOnly s s'\<close>: the two states differ at most in the step graph and in the
  three sets that \<^verbatim>\<open>createStep\<close> takes by reference.\<close>

definition graphOnly :: "State \<Rightarrow> State \<Rightarrow> bool" where
  "graphOnly s s' \<longleftrightarrow>
     s' = s\<lparr>steps := steps s', heap := heap s', finishedDrvs := finishedDrvs s',
            newSteps := newSteps s', newRunnable := newRunnable s'\<rparr>"

text \<open>\<open>stepLe st st'\<close>: a step as it may change once it exists. Its derivation, its
  \<^verbatim>\<open>created\<close> flag and its dependencies stay; the referrers are only added to; the
  priorities only grow, the lowest build id only shrinks, the jobsets are only added to.\<close>

definition stepLe :: "Step \<Rightarrow> Step \<Rightarrow> bool" where
  "stepLe st st' \<longleftrightarrow>
     drvPath st' = drvPath st \<and> drv st' = drv st
     \<and> requiredSystemFeatures st' = requiredSystemFeatures st
     \<and> preferLocalBuild st' = preferLocalBuild st
     \<and> created st' = created st \<and> deps st' = deps st
     \<and> set (builds st) \<subseteq> set (builds st') \<and> set (rdeps st) \<subseteq> set (rdeps st')
     \<and> highestGlobalPriority st \<le> highestGlobalPriority st'
     \<and> highestLocalPriority st \<le> highestLocalPriority st'
     \<and> lowestBuildID st' \<le> lowestBuildID st
     \<and> jobsets st \<subseteq> jobsets st'"

text \<open>\<open>extendsBelow b s s'\<close>: the heap has not shrunk, and every step that \<open>s\<close> has at an
  address below \<open>b\<close> is still there in \<open>s'\<close>, changed as \<open>stepLe\<close> allows; an address below
  \<open>b\<close> without a step has none in \<open>s'\<close> either.\<close>

definition extendsBelow :: "nat \<Rightarrow> State \<Rightarrow> State \<Rightarrow> bool" where
  "extendsBelow b s s' \<longleftrightarrow>
     length (heap s) \<le> length (heap s')
     \<and> (\<forall>a<b. case lookup (heap s) a of
                  None \<Rightarrow> lookup (heap s') a = None
                | Some st \<Rightarrow> (case lookup (heap s') a of
                               None \<Rightarrow> False
                             | Some st' \<Rightarrow> stepLe st st'))"

text \<open>\<open>addsAbove b s s'\<close>: \<^verbatim>\<open>newSteps\<close> and \<^verbatim>\<open>newRunnable\<close> have only grown, and by
  addresses from \<open>b\<close> on.\<close>

definition addsAbove :: "nat \<Rightarrow> State \<Rightarrow> State \<Rightarrow> bool" where
  "addsAbove b s s' \<longleftrightarrow>
     set (newSteps s) \<subseteq> set (newSteps s') \<and> set (newRunnable s) \<subseteq> set (newRunnable s')
     \<and> (\<forall>a \<in> set (newSteps s'). a \<in> set (newSteps s) \<or> b \<le> a)
     \<and> (\<forall>a \<in> set (newRunnable s'). a \<in> set (newRunnable s) \<or> b \<le> a)"

text \<open>\<open>graphInv s\<close>: the entry of a path in \<^verbatim>\<open>steps\<close>, when its step is alive, is a
  step of that path; every step alive is the entry of its path; and an entry points to an
  address that was allocated. So there is at most one step alive for a path.\<close>

definition graphInv :: "State \<Rightarrow> bool" where
  "graphInv s \<longleftrightarrow>
     (\<forall>p a st. steps s p = Some a \<and> lookup (heap s) a = Some st \<longrightarrow> drvPath st = p)
     \<and> (\<forall>a st. lookup (heap s) a = Some st \<longrightarrow> steps s (drvPath st) = Some a)
     \<and> (\<forall>p a. steps s p = Some a \<longrightarrow> a < length (heap s))"

text \<open>\<open>stepGrows st st'\<close>: a step under construction during the loop over its inputs. It
  is the same step, and only gains referrers and dependencies.\<close>

definition stepGrows :: "Step \<Rightarrow> Step \<Rightarrow> bool" where
  "stepGrows st st' \<longleftrightarrow>
     drvPath st' = drvPath st \<and> drv st' = drv st \<and> created st' = created st
     \<and> set (builds st) \<subseteq> set (builds st') \<and> set (rdeps st) \<subseteq> set (rdeps st')
     \<and> set (deps st) \<subseteq> set (deps st')"

text \<open>The spec's runnability: a step is runnable when it is created and has no
  dependencies.\<close>

definition runnableStep :: "Step \<Rightarrow> bool" where
  "runnableStep st \<longleftrightarrow> created st \<and> deps st = []"

text \<open>\<open>keyed s\<close>: \<^verbatim>\<open>newBuildsByID\<close> is a \<^verbatim>\<open>std::map\<close> (its keys ascend), and the key of a
  build is its id.\<close>

definition keyed :: "State \<Rightarrow> bool" where
  "keyed s \<longleftrightarrow>
     sorted (map fst (newBuildsByID s)) \<and> distinct (map fst (newBuildsByID s))
     \<and> (\<forall>e \<in> set (newBuildsByID s). build_id (snd e) = fst e)"

text \<open>\<open>sameQueue s s'\<close>: the counters and the maps of the queued builds are the same.\<close>

definition sameQueue :: "State \<Rightarrow> State \<Rightarrow> bool" where
  "sameQueue s s' \<longleftrightarrow>
     nrAdded s' = nrAdded s \<and> newBuildsByID s' = newBuildsByID s
     \<and> newBuildsByPath s' = newBuildsByPath s \<and> newIDs s' = newIDs s
     \<and> nrBuildsRead s' = nrBuildsRead s"

text \<open>\<open>counted s t\<close>: from \<open>s\<close> to \<open>t\<close>, \<^verbatim>\<open>nrAdded\<close> has grown by the number of builds
  that have left \<^verbatim>\<open>newBuildsByID\<close>, and no build has entered it.\<close>

definition counted :: "State \<Rightarrow> State \<Rightarrow> bool" where
  "counted s t \<longleftrightarrow>
     keyed t \<and> nrAdded t + length (newBuildsByID t) = nrAdded s + length (newBuildsByID s)
     \<and> fst ` set (newBuildsByID t) \<subseteq> fst ` set (newBuildsByID s)
     \<and> nrBuildsRead t = nrBuildsRead s \<and> newIDs t = newIDs s"


text \<open>Whether a row gives a new build.\<close>

definition rowIsNew :: "State \<Rightarrow> BuildRow \<Rightarrow> bool" where
  "rowIsNew s row \<longleftrightarrow>
     (buildOne s = 0 \<or> row_id row = buildOne s) \<and> map_of (registry s) (row_id row) = None"

text \<open>The ids of the builds that a pass of \<^verbatim>\<open>getQueuedBuilds\<close> reads as new: those of
  the rows of the query that pass the \<^verbatim>\<open>buildOne\<close> filter and are not in the registry.\<close>

definition newBuildIds :: "State \<Rightarrow> BuildID set" where
  "newBuildIds s = row_id ` {r \<in> set (queuedRows (lastBuildId s) (dbBuilds s)). rowIsNew s r}"

text \<open>\<open>reaches h a d\<close>: in the heap \<open>h\<close>, the step at \<open>d\<close> is reachable from the step at \<open>a\<close>
  through \<^verbatim>\<open>deps\<close>.\<close>

inductive reaches :: "Step option list \<Rightarrow> addr \<Rightarrow> addr \<Rightarrow> bool" for h :: "Step option list" where
  start: "lookup h a = Some st \<Longrightarrow> reaches h a a"
| dep: "reaches h a c \<Longrightarrow> lookup h c = Some st \<Longrightarrow> d \<in> set (deps st) \<Longrightarrow> lookup h d = Some st'
         \<Longrightarrow> reaches h a d"

text \<open>\<open>bumped b st\<close>: the step has the priorities, the build id and the jobset of the
  build \<open>b\<close> accounted for.\<close>

definition bumped :: "Build \<Rightarrow> Step \<Rightarrow> bool" where
  "bumped b st \<longleftrightarrow>
     globalPriority b \<le> highestGlobalPriority st \<and> localPriority b \<le> highestLocalPriority st
     \<and> lowestBuildID st \<le> build_id b \<and> jobset b \<in> jobsets st"

text \<open>\<open>raised st st'\<close>: the step \<open>st'\<close> is \<open>st\<close> but for the four fields that
  \<^verbatim>\<open>propagatePriorities\<close> writes, and these have moved in their one direction: the
  priorities up, the lowest build id down, the jobsets to a superset.\<close>

definition raised :: "Step \<Rightarrow> Step \<Rightarrow> bool" where
  "raised st st' \<longleftrightarrow>
     st' = st\<lparr>highestGlobalPriority := highestGlobalPriority st',
              highestLocalPriority := highestLocalPriority st',
              lowestBuildID := lowestBuildID st', jobsets := jobsets st'\<rparr>
     \<and> highestGlobalPriority st \<le> highestGlobalPriority st'
     \<and> highestLocalPriority st \<le> highestLocalPriority st'
     \<and> lowestBuildID st' \<le> lowestBuildID st
     \<and> jobsets st \<subseteq> jobsets st'"

text \<open>\<open>settled cur r i\<close>: if the registry \<open>r\<close> has a build with id \<open>i\<close>, the snapshot \<open>cur\<close>
  of the queue has the id, and the build's \<^verbatim>\<open>globalPriority\<close> is not below the one of
  the snapshot.\<close>

definition settled :: "(BuildID \<times> int) list \<Rightarrow> (BuildID \<times> Build) list \<Rightarrow> BuildID \<Rightarrow> bool" where
  "settled cur r i =
     (case map_of r i of
        None \<Rightarrow> True
      | Some b \<Rightarrow> (case map_of cur i of None \<Rightarrow> False | Some p \<Rightarrow> \<not> globalPriority b < p))"

text \<open>\<open>regInv s\<close>: every build of the registry has a top-level step that is alive, is a step
  of the build's derivation, and has the build in its \<^verbatim>\<open>builds\<close>.\<close>

definition regInv :: "State \<Rightarrow> bool" where
  "regInv s \<longleftrightarrow>
     (\<forall>i b. map_of (registry s) i = Some b \<longrightarrow>
        (\<exists>a st. toplevel b = Some a \<and> lookup (heap s) a = Some st
           \<and> drvPath st = build_drvPath b \<and> i \<in> set (builds st)))"

text \<open>
  \<open>reachable E s\<close>: the states of the queue monitor between the calls that
  \<^verbatim>\<open>queueMonitorLoop\<close> makes (lines 20 to 52). It starts with no step and no build. A
  pass of \<^verbatim>\<open>getQueuedBuilds\<close> returns or throws (\<^verbatim>\<open>queueMonitor\<close> restarts the loop
  after an error), with a store and machines that satisfy \<open>E\<close>. \<^verbatim>\<open>processQueueChange\<close>
  runs. Between the calls the tables of the database change, \<^verbatim>\<open>lastBuildId\<close> is reset and
  \<^verbatim>\<open>nrQueueWakeups\<close> counts.
\<close>

inductive reachable :: "(Ext \<Rightarrow> bool) \<Rightarrow> State \<Rightarrow> bool" for E :: "Ext \<Rightarrow> bool" where
  start: "heap s = [] \<Longrightarrow> steps s = Map.empty \<Longrightarrow> registry s = [] \<Longrightarrow> newSteps s = []
            \<Longrightarrow> newRunnable s = [] \<Longrightarrow> reachable E s"
| pass: "reachable E s \<Longrightarrow> E x \<Longrightarrow> finalState (getQueuedBuilds n x s) = Some s' \<Longrightarrow> reachable E s'"
| change: "reachable E s \<Longrightarrow> reachable E (processQueueChange s)"
| outside: "reachable E s
     \<Longrightarrow> reachable E (s\<lparr>dbBuilds := rows, dbBuildSteps := stepRows, dbJobsets := jobsetRows,
                         lastBuildId := lastId, nrQueueWakeups := wakeups\<rparr>)"

subsection \<open>Example configurations\<close>

text \<open>The inputs at which the theorems below are instantiated.\<close>

definition emptyState :: State where
  "emptyState =
     \<lparr>steps = Map.empty, heap = [], registry = [], jobsetRegistry = [], runnable = [],
      localPlatforms = [], buildOne = 0, lastBuildId = 0, nrBuildsRead = 0, nrBuildsDone = 0,
      nrQueueWakeups = 0, dbBuilds = [], dbBuildSteps = [], dbJobsets = [],
      finishedDrvs = {}, newSteps = [], newRunnable = [], nrAdded = 0, newIDs = [],
      newBuildsByID = [], newBuildsByPath = []\<rparr>"

definition queuedRow :: "BuildID \<Rightarrow> Path \<Rightarrow> int \<Rightarrow> BuildRow" where
  "queuedRow i p g =
     \<lparr>row_id = i, row_project = ''p'', row_jobset = ''j'', row_job = ''job'', row_drvPath = p,
      row_maxsilent = 0, row_timeout = 0, row_timestamp = 0, row_globalPriority = g,
      row_priority = 0, row_finished = 0, row_busy = 0, row_buildStatus = None,
      row_startTime = None, row_stopTime = None, row_errorMsg = None,
      row_isCachedBuild = None\<rparr>"

definition queuedBuild :: "BuildID \<Rightarrow> Path \<Rightarrow> int \<Rightarrow> Build" where
  "queuedBuild i p g =
     \<lparr>build_id = i, build_drvPath = p, projectName = ''p'', jobsetName = ''j'',
      jobName = ''job'', maxSilentTime = 0, buildTimeout = 0, timestamp = 0,
      globalPriority = g, localPriority = 0, jobset = (''p'', ''j''), toplevel = None,
      finishedInDB = False\<rparr>"

definition simpleDrv :: "Path list \<Rightarrow> Path \<Rightarrow> Derivation" where
  "simpleDrv ins out =
     \<lparr>outputs = [(''out'', out)], inputDrvs = map (\<lambda>i. (i, [''out''])) ins,
      platform = ''x86_64-linux'', env = []\<rparr>"

text \<open>A store with the derivations a (which needs b), b and c (which needs b); no output is valid.\<close>

definition smallStore :: Ext where
  "smallStore =
     \<lparr>isValidPath = (\<lambda>p. p \<in> set [''/d/a.drv'', ''/d/b.drv'', ''/d/c.drv'']),
      readDerivation = map_of
        [(''/d/a.drv'', simpleDrv [''/d/b.drv''] ''/o/a''),
         (''/d/b.drv'', simpleDrv [] ''/o/b''),
         (''/d/c.drv'', simpleDrv [''/d/b.drv''] ''/o/c'')],
      getBuildOutput = (\<lambda>d. 0),
      checkCachedFailure = (\<lambda>st. False),
      machines = [\<lambda>st. True],
      time0 = 1000,
      schedulingWindow = 3600\<rparr>"

text \<open>The store once the output of b has become valid.\<close>

definition validStore :: Ext where
  "validStore =
     smallStore\<lparr>isValidPath :=
       (\<lambda>p. p \<in> set [''/d/a.drv'', ''/d/b.drv'', ''/d/c.drv'', ''/o/b''])\<rparr>"

text \<open>A store where b has a cached failure.\<close>

definition failingStore :: Ext where
  "failingStore = smallStore\<lparr>checkCachedFailure := (\<lambda>st. drvPath st = ''/d/b.drv'')\<rparr>"

text \<open>The state of a queue runner that has just started, with the given queue.\<close>

definition queueState :: "BuildRow list \<Rightarrow> State" where
  "queueState rows =
     emptyState\<lparr>dbBuilds := rows,
       dbJobsets := [\<lparr>js_project = ''p'', js_name = ''j'', js_schedulingShares = 100\<rparr>]\<rparr>"

text \<open>The state after a pass of \<^verbatim>\<open>getQueuedBuilds\<close>.\<close>

definition afterPass :: "nat \<Rightarrow> Ext \<Rightarrow> State \<Rightarrow> State" where
  "afterPass n x s = (case finalState (getQueuedBuilds n x s) of Some s' \<Rightarrow> s' | None \<Rightarrow> s)"

text \<open>The state inside the call that loads build 1 of derivation a, once
  \<^verbatim>\<open>createStep\<close> has made the steps of a (at address 0) and of b (at address 1).\<close>

definition loadedStep :: "Path \<Rightarrow> Path list \<Rightarrow> Path \<Rightarrow> addr list \<Rightarrow> Step" where
  "loadedStep p ins out ds =
     (newStep p)\<lparr>drv := simpleDrv ins out, created := True, deps := ds\<rparr>"

definition expandedState :: State where
  "expandedState =
     (queueState [queuedRow 1 ''/d/a.drv'' 0])
       \<lparr>heap := [Some (loadedStep ''/d/a.drv'' [''/d/b.drv''] ''/o/a'' [1]),
                 Some (loadedStep ''/d/b.drv'' [] ''/o/b'' [])],
        steps := [''/d/a.drv'' \<mapsto> 0, ''/d/b.drv'' \<mapsto> 1],
        newSteps := [0, 1], newRunnable := [1]\<rparr>"

text \<open>A queue runner with build 1 of a and build 2 of b in its registry, when the queue has
  build 1 at priority 5 and build 2 no more.\<close>

definition changedQueue :: State where
  "changedQueue =
     expandedState
       \<lparr>dbBuilds := [queuedRow 1 ''/d/a.drv'' 5],
        registry := [(1, (queuedBuild 1 ''/d/a.drv'' 0)\<lparr>toplevel := Some 0\<rparr>),
                     (2, (queuedBuild 2 ''/d/b.drv'' 0)\<lparr>toplevel := Some 1\<rparr>)],
        newSteps := [], newRunnable := []\<rparr>"

subsection \<open>Heap lemmas\<close>

lemma lookup_Some_less: "lookup h a = Some st \<Longrightarrow> a < length h"
  by (simp add: lookup_def split: if_splits)

lemma lookup_update: "lookup (h[a := v]) b = (if b = a \<and> a < length h then v else lookup h b)"
  by (simp add: lookup_def)

lemma lookup_append1: "lookup (h @ [v]) b = (if b = length h then v else lookup h b)"
  by (auto simp: lookup_def nth_append)

lemma heap_modify:
  "heap (modify a f s) = (case lookup (heap s) a of None \<Rightarrow> heap s | Some st \<Rightarrow> (heap s)[a := Some (f st)])"
  by (simp add: modify_def split: option.splits)

lemma length_heap_modify [simp]: "length (heap (modify a f s)) = length (heap s)"
  by (simp add: heap_modify split: option.splits)

lemma length_heap_free [simp]: "length (heap (free a s)) = length (heap s)"
  by (simp add: free_def)

lemma lookup_modify:
  "lookup (heap (modify a f s)) b = (if b = a then map_option f (lookup (heap s) a) else lookup (heap s) b)"
  by (auto simp: heap_modify lookup_update split: option.splits dest: lookup_Some_less)

lemma lookup_free:
  "lookup (heap (free a s)) b = (if b = a then None else lookup (heap s) b)"
  by (auto simp: free_def lookup_update lookup_def)

lemma modify_other [simp]:
  "steps (modify a f s) = steps s" "registry (modify a f s) = registry s"
  "finishedDrvs (modify a f s) = finishedDrvs s" "newSteps (modify a f s) = newSteps s"
  "newRunnable (modify a f s) = newRunnable s" "nrBuildsDone (modify a f s) = nrBuildsDone s"
  "nrBuildsRead (modify a f s) = nrBuildsRead s" "nrAdded (modify a f s) = nrAdded s"
  "dbBuilds (modify a f s) = dbBuilds s" "dbBuildSteps (modify a f s) = dbBuildSteps s"
  "newBuildsByID (modify a f s) = newBuildsByID s" "newBuildsByPath (modify a f s) = newBuildsByPath s"
  "localPlatforms (modify a f s) = localPlatforms s" "runnable (modify a f s) = runnable s"
  "lastBuildId (modify a f s) = lastBuildId s" "newIDs (modify a f s) = newIDs s"
  "jobsetRegistry (modify a f s) = jobsetRegistry s" "dbJobsets (modify a f s) = dbJobsets s"
  "buildOne (modify a f s) = buildOne s" "nrQueueWakeups (modify a f s) = nrQueueWakeups s"
  "State.more (modify a f s) = State.more s"
  by (simp_all add: modify_def split: option.splits)

lemma free_other [simp]:
  "steps (free a s) = steps s" "registry (free a s) = registry s"
  "finishedDrvs (free a s) = finishedDrvs s" "newSteps (free a s) = newSteps s"
  "newRunnable (free a s) = newRunnable s" "nrBuildsDone (free a s) = nrBuildsDone s"
  "nrBuildsRead (free a s) = nrBuildsRead s" "nrAdded (free a s) = nrAdded s"
  "dbBuilds (free a s) = dbBuilds s" "dbBuildSteps (free a s) = dbBuildSteps s"
  "newBuildsByID (free a s) = newBuildsByID s" "newBuildsByPath (free a s) = newBuildsByPath s"
  "localPlatforms (free a s) = localPlatforms s" "runnable (free a s) = runnable s"
  "lastBuildId (free a s) = lastBuildId s" "newIDs (free a s) = newIDs s"
  "jobsetRegistry (free a s) = jobsetRegistry s" "dbJobsets (free a s) = dbJobsets s"
  "buildOne (free a s) = buildOne s" "nrQueueWakeups (free a s) = nrQueueWakeups s"
  "State.more (free a s) = State.more s"
  by (simp_all add: free_def)

subsection \<open>Maps of the standard library\<close>

lemma map_of_map_assign: "map_of (map_assign k v m) = (map_of m)(k \<mapsto> v)"
  by (induction m) (auto simp: fun_eq_iff)

lemma keys_map_assign: "fst ` set (map_assign k v m) = insert k (fst ` set m)"
  by (simp add: dom_map_of_conv_image_fst [symmetric] map_of_map_assign)

lemma sorted_map_assign:
  "sorted (map fst m) \<Longrightarrow> distinct (map fst m)
     \<Longrightarrow> sorted (map fst (map_assign k v m)) \<and> distinct (map fst (map_assign k v m))"
proof (induction m)
  case Nil
  then show ?case by simp
next
  case (Cons e m)
  then show ?case
    by (cases e) (auto simp: keys_map_assign)
qed

lemma set_map_assign: "e \<in> set (map_assign k v m) \<Longrightarrow> e = (k, v) \<or> e \<in> set m"
  by (induction m) (auto split: if_splits)

lemma keys_delete: "fst ` set (AList.delete k m) = fst ` set m - {k}"
  by (simp add: dom_map_of_conv_image_fst [symmetric] delete_conv')

lemma sorted_delete:
  "sorted (map fst m) \<Longrightarrow> sorted (map fst (AList.delete k m))"
  by (simp add: delete_keys sorted_wrt_filter removeAll_filter_not_eq)

lemma length_delete:
  "distinct (map fst m) \<Longrightarrow> k \<in> fst ` set m
     \<Longrightarrow> Suc (length (AList.delete k m)) = length m"
proof (induction m)
  case Nil
  then show ?case by simp
next
  case (Cons e m)
  show ?case
  proof (cases "fst e = k")
    case True
    with Cons.prems(1) have "k \<notin> fst ` set m" by auto
    then have "AList.delete k m = m" by simp
    with True show ?thesis by (cases e) simp
  next
    case False
    with Cons show ?thesis by (cases e) auto
  qed
qed

lemma set_delete: "e \<in> set (AList.delete k m) \<Longrightarrow> e \<in> set m"
  by (auto simp: AList.delete_eq)

lemma map_of_keyed:
  "map_of m i = Some b \<Longrightarrow> (i, b) \<in> set m"
  by (rule map_of_SomeD)

subsection \<open>Case analysis of createStep\<close>

lemma findStep_Some:
  "findStep p s = Some a \<longleftrightarrow> steps s p = Some a \<and> lookup (heap s) a \<noteq> None"
  by (auto simp: findStep_def split: option.splits)

lemma getStep_found:
  assumes "findStep p s = Some a" and "lookup (heap s) a = Some st"
  shows "getStep p rb rs s =
           (if created st
            then Some (a, False, (modify a (attach rb rs) s)\<lparr>steps := (steps s)(p \<mapsto> a)\<rparr>)
            else None)"
  using assms by (simp add: getStep_def)

lemma getStep_new:
  assumes "findStep p s = None"
  shows "getStep p rb rs s =
           Some (length (heap s), True,
                 (modify (length (heap s)) (attach rb rs) (s\<lparr>heap := heap s @ [Some (newStep p)]\<rparr>))
                   \<lparr>steps := (steps s)(p \<mapsto> length (heap s))\<rparr>)"
  using assms by (simp add: getStep_def alloc_def lookup_append1 newStep_def)

lemma getStep_cases:
  assumes "getStep p rb rs s = Some (a, isNew, s1)"
  obtains (found) st where "findStep p s = Some a" "lookup (heap s) a = Some st" "created st"
      "\<not> isNew" "s1 = (modify a (attach rb rs) s)\<lparr>steps := (steps s)(p \<mapsto> a)\<rparr>"
  | (new) "findStep p s = None" "a = length (heap s)" "isNew"
      "s1 = (modify a (attach rb rs) (s\<lparr>heap := heap s @ [Some (newStep p)]\<rparr>))
              \<lparr>steps := (steps s)(p \<mapsto> a)\<rparr>"
proof (cases "findStep p s")
  case None
  from assms getStep_new [OF None, of rb rs]
  have "a = length (heap s)" "isNew"
    "s1 = (modify a (attach rb rs) (s\<lparr>heap := heap s @ [Some (newStep p)]\<rparr>))
              \<lparr>steps := (steps s)(p \<mapsto> a)\<rparr>"
    by auto
  with None new show ?thesis by blast
next
  case (Some b)
  then obtain st where st: "lookup (heap s) b = Some st"
    by (auto simp: findStep_Some)
  from assms getStep_found [OF Some st, of rb rs]
  have "b = a" "created st" "\<not> isNew"
    "s1 = (modify a (attach rb rs) s)\<lparr>steps := (steps s)(p \<mapsto> a)\<rparr>"
    by (auto split: if_splits)
  with Some st found show ?thesis by blast
qed

lemma createStep_Ok_cases:
  assumes "createStep (Suc n) x p rb rs s = Ok r s'"
  obtains (finished) "p \<in> finishedDrvs s" "r = None" "s' = s"
  | (found) a where "p \<notin> finishedDrvs s" "getStep p rb rs s = Some (a, False, s')" "r = Some a"
  | (valid) a s1 d where "p \<notin> finishedDrvs s" "getStep p rb rs s = Some (a, True, s1)"
      "readDerivation x p = Some d" "allValid x d" "r = None" "s' = dropValid a p d s1"
  | (built) a s1 d s3 where "p \<notin> finishedDrvs s" "getStep p rb rs s = Some (a, True, s1)"
      "readDerivation x p = Some d" "\<not> allValid x d"
      "createDeps n x a (map fst (inputDrvs d)) (beginStep a d s1) = Ok () s3"
      "finishStep a s3 = Some s'" "r = Some a"
  using assms
  by (auto split: if_splits option.splits outcome.splits)

lemma createStep_Throw_cases:
  assumes "createStep (Suc n) x p rb rs s = Throw e s'"
  obtains (unreadable) a s1 where "p \<notin> finishedDrvs s" "getStep p rb rs s = Some (a, True, s1)"
      "readDerivation x p = None" "s' = free a s1"
  | (deps) a s1 d where "p \<notin> finishedDrvs s" "getStep p rb rs s = Some (a, True, s1)"
      "readDerivation x p = Some d" "\<not> allValid x d"
      "createDeps n x a (map fst (inputDrvs d)) (beginStep a d s1) = Throw e s'"
  using assms
  by (auto split: if_splits option.splits outcome.splits)

lemma createDeps_Cons_Ok:
  assumes "createDeps n x a (i # is) s = Ok u s'"
  obtains dep s1 where "createStep n x i None (Some a) s = Ok dep s1"
      "createDeps n x a is (addDep a dep s1) = Ok u s'"
  using assms by (auto split: outcome.splits)

lemma createDeps_Cons_Throw:
  assumes "createDeps n x a (i # is) s = Throw e s'"
  obtains (here) "createStep n x i None (Some a) s = Throw e s'"
  | (later) dep s1 where "createStep n x i None (Some a) s = Ok dep s1"
      "createDeps n x a is (addDep a dep s1) = Throw e s'"
  using assms by (auto split: outcome.splits)

declare createStep.simps(2) [simp del]

subsection \<open>A proof rule for relations that createStep keeps\<close>

lemma finalState_simps [simp]:
  "finalState (Ok v s) = Some s" "finalState (Throw e s) = Some s"
  "finalState AssertFail = None" "finalState OutOfFuel = None"
  by (simp_all add: finalState_def)

lemma finalState_Some:
  "finalState r = Some s' \<longleftrightarrow> (\<exists>v. r = Ok v s') \<or> (\<exists>e. r = Throw e s')"
  by (cases r) auto

lemma getStep_new_addr: "getStep p rb rs s = Some (a, True, s1) \<Longrightarrow> a = length (heap s)"
  by (erule getStep_cases) auto

lemma createStep_final_cases:
  assumes "finalState (createStep (Suc n) x p rb rs s) = Some s'"
  obtains (finished) "p \<in> finishedDrvs s" "s' = s"
  | (found) a where "getStep p rb rs s = Some (a, False, s')"
  | (unreadable) s1 where "getStep p rb rs s = Some (length (heap s), True, s1)"
      "s' = free (length (heap s)) s1"
  | (valid) s1 d where "getStep p rb rs s = Some (length (heap s), True, s1)"
      "s' = dropValid (length (heap s)) p d s1"
  | (built) s1 d s3 where "getStep p rb rs s = Some (length (heap s), True, s1)"
      "createDeps n x (length (heap s)) (map fst (inputDrvs d)) (beginStep (length (heap s)) d s1)
         = Ok () s3"
      "finishStep (length (heap s)) s3 = Some s'"
  | (depsThrow) s1 d e where "getStep p rb rs s = Some (length (heap s), True, s1)"
      "createDeps n x (length (heap s)) (map fst (inputDrvs d)) (beginStep (length (heap s)) d s1)
         = Throw e s'"
proof -
  from assms consider v where "createStep (Suc n) x p rb rs s = Ok v s'"
    | e where "createStep (Suc n) x p rb rs s = Throw e s'"
    by (auto simp: finalState_Some)
  then show ?thesis
  proof cases
    case 1
    then show ?thesis
    proof (cases rule: createStep_Ok_cases)
      case finished
      with that(1) show ?thesis by blast
    next
      case (found a)
      with that(2) show ?thesis by blast
    next
      case (valid a s1 d)
      with that(4) getStep_new_addr [OF valid(2)] show ?thesis by blast
    next
      case (built a s1 d s3)
      with that(5) getStep_new_addr [OF built(2)] show ?thesis by blast
    qed
  next
    case 2
    then show ?thesis
    proof (cases rule: createStep_Throw_cases)
      case (unreadable a s1)
      with that(3) getStep_new_addr [OF unreadable(2)] show ?thesis by blast
    next
      case (deps a s1 d)
      with that(6) getStep_new_addr [OF deps(2)] show ?thesis by blast
    qed
  qed
qed

lemma createDeps_final_Cons:
  assumes "finalState (createDeps n x a (i # is) s) = Some s'"
  obtains (here) "finalState (createStep n x i None (Some a) s) = Some s'"
  | (later) dep s1 where "createStep n x i None (Some a) s = Ok dep s1"
      "finalState (createDeps n x a is (addDep a dep s1)) = Some s'"
  using assms by (auto split: outcome.splits)

lemma createStep_rel_aux:
  fixes R :: "nat \<Rightarrow> State \<Rightarrow> State \<Rightarrow> bool"
  assumes refl: "\<And>b s. R b s s"
    and trans: "\<And>b s t u. R b s t \<Longrightarrow> R b t u \<Longrightarrow> R b s u"
    and mono: "\<And>b b' s t. b \<le> b' \<Longrightarrow> R b' s t \<Longrightarrow> R b s t"
    and len: "\<And>b s t. R b s t \<Longrightarrow> length (heap s) \<le> length (heap t)"
    and addDep: "\<And>dep s. R b s (addDep a dep s)"
    and step: "\<And>p rb rs s s'. finalState (createStep n x p rb rs s) = Some s'
                \<Longrightarrow> R (length (heap s)) s s'"
  shows "b \<le> length (heap s) \<Longrightarrow> finalState (createDeps n x a ps s) = Some s'
           \<Longrightarrow> R b s s'"
proof (induction ps arbitrary: s)
  case Nil
  then show ?case by (simp add: refl)
next
  case (Cons i ps)
  from Cons.prems(2) show ?case
  proof (cases rule: createDeps_final_Cons)
    case here
    then have "R (length (heap s)) s s'" by (rule step)
    with Cons.prems(1) show ?thesis by (rule mono)
  next
    case (later dep s1)
    then have "finalState (createStep n x i None (Some a) s) = Some s1" by simp
    then have "R (length (heap s)) s s1" by (rule step)
    with Cons.prems(1) have r1: "R b s s1" by (rule mono)
    have r2: "R b s1 (addDep a dep s1)" by (rule addDep)
    have "b \<le> length (heap (addDep a dep s1))"
      using len [OF r1] len [OF r2] Cons.prems(1) by simp
    then have "R b (addDep a dep s1) s'"
      using later(2) by (rule Cons.IH)
    with r1 r2 show ?thesis by (blast intro: trans)
  qed
qed

lemma createStep_rel:
  fixes R :: "nat \<Rightarrow> State \<Rightarrow> State \<Rightarrow> bool"
  assumes refl: "\<And>b s. R b s s"
    and trans: "\<And>b s t u. R b s t \<Longrightarrow> R b t u \<Longrightarrow> R b s u"
    and mono: "\<And>b b' s t. b \<le> b' \<Longrightarrow> R b' s t \<Longrightarrow> R b s t"
    and len: "\<And>b s t. R b s t \<Longrightarrow> length (heap s) \<le> length (heap t)"
    and getStep: "\<And>p rb rs s a isNew s1. getStep p rb rs s = Some (a, isNew, s1)
                   \<Longrightarrow> R (length (heap s)) s s1"
    and free: "\<And>b a s. b \<le> a \<Longrightarrow> R b s (free a s)"
    and dropValid: "\<And>b a p d s. b \<le> a \<Longrightarrow> R b s (dropValid a p d s)"
    and beginStep: "\<And>b a d s. b \<le> a \<Longrightarrow> R b s (beginStep a d s)"
    and addDep: "\<And>b a dep s. b \<le> a \<Longrightarrow> R b s (addDep a dep s)"
    and finishStep: "\<And>b a s s'. b \<le> a \<Longrightarrow> finishStep a s = Some s' \<Longrightarrow> R b s s'"
  shows "finalState (createStep n x p rb rs s) = Some s' \<Longrightarrow> R (length (heap s)) s s'"
proof (induction n arbitrary: p rb rs s s')
  case 0
  then show ?case by simp
next
  case (Suc n)
  let ?b = "length (heap s)"
  have deps: "R b t t'"
    if "b \<le> length (heap t)" "b \<le> a" "finalState (createDeps n x a ps t) = Some t'"
    for b t a ps t'
  proof (rule createStep_rel_aux [where R = R and n = n and x = x and a = a and ps = ps])
    show "R b s s" for b s by (rule refl)
    show "R b s u" if "R b s t" "R b t u" for b s t u using that by (rule trans)
    show "R b s t" if "b \<le> b'" "R b' s t" for b b' s t using that by (rule mono)
    show "length (heap s) \<le> length (heap t)" if "R b s t" for b s t using that by (rule len)
    show "R b s (addDep a dep s)" for dep s using that(2) by (rule addDep)
    show "R (length (heap s)) s s'" if "finalState (createStep n x p rb rs s) = Some s'"
      for p rb rs s s' using that by (rule Suc.IH)
  qed (use that in auto)
  from Suc.prems show ?case
  proof (cases rule: createStep_final_cases)
    case finished
    then show ?thesis by (simp add: refl)
  next
    case (found a)
    then show ?thesis by (rule getStep)
  next
    case (unreadable s1)
    from unreadable(1) have "R ?b s s1" by (rule getStep)
    moreover have "R ?b s1 (free ?b s1)" by (rule free) simp
    ultimately show ?thesis using unreadable(2) by (blast intro: trans)
  next
    case (valid s1 d)
    from valid(1) have "R ?b s s1" by (rule getStep)
    moreover have "R ?b s1 (dropValid ?b p d s1)" by (rule dropValid) simp
    ultimately show ?thesis using valid(2) by (blast intro: trans)
  next
    case (built s1 d s3)
    from built(1) have r1: "R ?b s s1" by (rule getStep)
    have r2: "R ?b s1 (beginStep ?b d s1)" by (rule beginStep) simp
    have "?b \<le> length (heap (beginStep ?b d s1))"
      using len [OF r1] len [OF r2] by simp
    moreover have "?b \<le> ?b" by simp
    moreover have "finalState (createDeps n x ?b (map fst (inputDrvs d)) (beginStep ?b d s1)) = Some s3"
      using built(2) by simp
    ultimately have r3: "R ?b (beginStep ?b d s1) s3" by (rule deps)
    have "?b \<le> ?b" by simp
    then have r4: "R ?b s3 s'" using built(3) by (rule finishStep)
    from r1 r2 r3 r4 show ?thesis by (blast intro: trans)
  next
    case (depsThrow s1 d e)
    from depsThrow(1) have r1: "R ?b s s1" by (rule getStep)
    have r2: "R ?b s1 (beginStep ?b d s1)" by (rule beginStep) simp
    have "?b \<le> length (heap (beginStep ?b d s1))"
      using len [OF r1] len [OF r2] by simp
    moreover have "?b \<le> ?b" by simp
    moreover have "finalState (createDeps n x ?b (map fst (inputDrvs d)) (beginStep ?b d s1)) = Some s'"
      using depsThrow(2) by simp
    ultimately have r3: "R ?b (beginStep ?b d s1) s'" by (rule deps)
    from r1 r2 r3 show ?thesis by (blast intro: trans)
  qed
qed

subsection \<open>The relations between states\<close>

lemma set_set_insert [simp]: "set (set_insert x xs) = insert x (set xs)"
  by (simp add: set_insert_def set_insort_key insert_absorb)

lemma stepLe_refl [simp]: "stepLe st st"
  by (simp add: stepLe_def)

lemma stepLe_trans: "stepLe a b \<Longrightarrow> stepLe b c \<Longrightarrow> stepLe a c"
  by (auto simp: stepLe_def)

lemma stepLe_attach [simp]: "stepLe st (attach rb rs st)"
  by (auto simp: stepLe_def attach_def split: option.splits)

lemma stepLe_bump [simp]: "stepLe st (bump b st)"
  by (auto simp: stepLe_def bump_def)

lemma graphOnly_iff:
  "graphOnly s s' \<longleftrightarrow>
     registry s' = registry s \<and> jobsetRegistry s' = jobsetRegistry s
     \<and> runnable s' = runnable s \<and> localPlatforms s' = localPlatforms s
     \<and> buildOne s' = buildOne s \<and> lastBuildId s' = lastBuildId s
     \<and> nrBuildsRead s' = nrBuildsRead s \<and> nrBuildsDone s' = nrBuildsDone s
     \<and> nrQueueWakeups s' = nrQueueWakeups s \<and> dbBuilds s' = dbBuilds s
     \<and> dbBuildSteps s' = dbBuildSteps s \<and> dbJobsets s' = dbJobsets s
     \<and> nrAdded s' = nrAdded s \<and> newIDs s' = newIDs s
     \<and> newBuildsByID s' = newBuildsByID s \<and> newBuildsByPath s' = newBuildsByPath s
     \<and> State.more s' = State.more s"
  by (cases s, cases s') (auto simp: graphOnly_def)

lemma graphOnly_refl [simp]: "graphOnly s s"
  by (simp add: graphOnly_iff)

lemma graphOnly_trans: "graphOnly s t \<Longrightarrow> graphOnly t u \<Longrightarrow> graphOnly s u"
  by (simp add: graphOnly_iff)


lemma graphOnly_modify [simp]: "graphOnly s (modify a f s)"
  by (simp add: graphOnly_iff modify_def split: option.splits)

lemma graphOnly_free [simp]: "graphOnly s (free a s)"
  by (simp add: graphOnly_iff free_def)

lemma graphOnly_getStep: "getStep p rb rs s = Some (a, isNew, s1) \<Longrightarrow> graphOnly s s1"
  by (erule getStep_cases) (simp_all add: graphOnly_iff modify_def split: option.splits)

lemma graphOnly_dropValid [simp]: "graphOnly s (dropValid a p d s)"
  by (simp add: graphOnly_iff dropValid_def Let_def free_def modify_def split: option.splits)

lemma graphOnly_beginStep [simp]: "graphOnly s (beginStep a d s)"
  by (simp add: graphOnly_iff beginStep_def Let_def modify_def split: option.splits)

lemma graphOnly_addDep [simp]: "graphOnly s (addDep a dep s)"
  by (simp add: addDep_def split: option.splits)

lemma graphOnly_finishStep: "finishStep a s = Some s' \<Longrightarrow> graphOnly s s'"
  by (auto simp: graphOnly_iff finishStep_def Let_def modify_def split: option.splits if_splits)

text \<open>The length of the heap.\<close>

lemma length_getStep: "getStep p rb rs s = Some (a, isNew, s1) \<Longrightarrow> length (heap s) \<le> length (heap s1)"
  by (erule getStep_cases) simp_all

lemma length_dropValid [simp]: "length (heap (dropValid a p d s)) = length (heap s)"
  by (simp add: dropValid_def Let_def)

lemma length_beginStep [simp]: "length (heap (beginStep a d s)) = length (heap s)"
  by (simp add: beginStep_def Let_def)

lemma length_addDep [simp]: "length (heap (addDep a dep s)) = length (heap s)"
  by (simp add: addDep_def split: option.splits)

lemma length_finishStep: "finishStep a s = Some s' \<Longrightarrow> length (heap s') = length (heap s)"
  by (auto simp: finishStep_def Let_def split: option.splits if_splits)

text \<open>extendsBelow\<close>

lemma extendsBelow_refl [simp]: "extendsBelow b s s"
  by (auto simp: extendsBelow_def split: option.splits)

lemma extendsBelow_trans: "extendsBelow b s t \<Longrightarrow> extendsBelow b t u \<Longrightarrow> extendsBelow b s u"
  unfolding extendsBelow_def
  by (auto split: option.splits dest: stepLe_trans) (metis option.distinct(1) option.inject stepLe_trans)+

lemma extendsBelow_mono: "b \<le> b' \<Longrightarrow> extendsBelow b' s t \<Longrightarrow> extendsBelow b s t"
  by (auto simp: extendsBelow_def)

lemma extendsBelowI:
  assumes "length (heap s) \<le> length (heap s')"
    and "\<And>a. a < b \<Longrightarrow> lookup (heap s) a = None \<Longrightarrow> lookup (heap s') a = None"
    and "\<And>a st. a < b \<Longrightarrow> lookup (heap s) a = Some st
           \<Longrightarrow> \<exists>st'. lookup (heap s') a = Some st' \<and> stepLe st st'"
  shows "extendsBelow b s s'"
  using assms by (fastforce simp: extendsBelow_def split: option.splits)

lemma extendsBelow_modify_above: "b \<le> a \<Longrightarrow> extendsBelow b s (modify a f s)"
  by (rule extendsBelowI) (auto simp: lookup_modify)

lemma extendsBelow_modify_le: "(\<And>st. stepLe st (f st)) \<Longrightarrow> extendsBelow b s (modify a f s)"
  by (rule extendsBelowI) (auto simp: lookup_modify)

lemma extendsBelow_free: "b \<le> a \<Longrightarrow> extendsBelow b s (free a s)"
  by (rule extendsBelowI) (auto simp: lookup_free)

lemma extendsBelow_heap_eq: "heap s' = heap s \<Longrightarrow> extendsBelow b s s'"
  by (rule extendsBelowI) auto

lemma extendsBelow_getStep:
  "getStep p rb rs s = Some (a, isNew, s1) \<Longrightarrow> extendsBelow (length (heap s)) s s1"
  by (erule getStep_cases; rule extendsBelowI)
     (auto simp: lookup_modify lookup_append1 dest: lookup_Some_less)

lemma extendsBelow_dropValid: "b \<le> a \<Longrightarrow> extendsBelow b s (dropValid a p d s)"
  by (rule extendsBelowI) (auto simp: dropValid_def Let_def lookup_free lookup_modify)

lemma extendsBelow_beginStep: "b \<le> a \<Longrightarrow> extendsBelow b s (beginStep a d s)"
  by (rule extendsBelowI) (auto simp: beginStep_def Let_def lookup_modify)

lemma extendsBelow_addDep: "b \<le> a \<Longrightarrow> extendsBelow b s (addDep a dep s)"
  by (rule extendsBelowI) (auto simp: addDep_def lookup_modify split: option.splits)

lemma extendsBelow_finishStep: "b \<le> a \<Longrightarrow> finishStep a s = Some s' \<Longrightarrow> extendsBelow b s s'"
  by (rule extendsBelowI)
     (auto simp: finishStep_def Let_def lookup_modify split: option.splits if_splits)

lemma extendsBelow_length: "extendsBelow b s t \<Longrightarrow> length (heap s) \<le> length (heap t)"
  by (simp add: extendsBelow_def)

text \<open>addsAbove\<close>

lemma addsAbove_refl [simp]: "addsAbove b s s"
  by (simp add: addsAbove_def)

lemma addsAbove_trans: "addsAbove b s t \<Longrightarrow> addsAbove b t u \<Longrightarrow> addsAbove b s u"
  unfolding addsAbove_def by blast

lemma addsAbove_mono: "b \<le> b' \<Longrightarrow> addsAbove b' s t \<Longrightarrow> addsAbove b s t"
  unfolding addsAbove_def by (meson le_trans)

lemma addsAbove_same:
  "newSteps t = newSteps s \<Longrightarrow> newRunnable t = newRunnable s \<Longrightarrow> addsAbove b s t"
  by (simp add: addsAbove_def)

lemma addsAbove_getStep: "getStep p rb rs s = Some (a, isNew, s1) \<Longrightarrow> addsAbove b s s1"
  by (erule getStep_cases) (simp_all add: addsAbove_def)

lemma addsAbove_dropValid: "addsAbove b s (dropValid a p d s)"
  by (simp add: addsAbove_def dropValid_def Let_def)

lemma addsAbove_beginStep: "b \<le> a \<Longrightarrow> addsAbove b s (beginStep a d s)"
  by (auto simp: addsAbove_def beginStep_def Let_def)

lemma addsAbove_addDep: "addsAbove b s (addDep a dep s)"
  by (simp add: addsAbove_def addDep_def split: option.splits)

lemma addsAbove_finishStep: "b \<le> a \<Longrightarrow> finishStep a s = Some s' \<Longrightarrow> addsAbove b s s'"
  by (auto simp: addsAbove_def finishStep_def Let_def split: option.splits if_splits)

text \<open>graphInv\<close>

lemma graphInv_shrink:
  assumes "graphInv s" and "steps s' = steps s" and "length (heap s) \<le> length (heap s')"
    and "\<And>a st'. lookup (heap s') a = Some st'
           \<Longrightarrow> \<exists>st. lookup (heap s) a = Some st \<and> drvPath st = drvPath st'"
  shows "graphInv s'"
  unfolding graphInv_def
proof (intro conjI allI impI)
  fix p a st'
  assume "steps s' p = Some a \<and> lookup (heap s') a = Some st'"
  then show "drvPath st' = p"
    using assms unfolding graphInv_def by metis
next
  fix a st'
  assume "lookup (heap s') a = Some st'"
  then show "steps s' (drvPath st') = Some a"
    using assms unfolding graphInv_def by metis
next
  fix p a
  assume "steps s' p = Some a"
  then have "a < length (heap s)"
    using assms(1,2) unfolding graphInv_def by metis
  then show "a < length (heap s')"
    using assms(3) by simp
qed

lemma graphInv_modify: "graphInv s \<Longrightarrow> (\<And>st. drvPath (f st) = drvPath st) \<Longrightarrow> graphInv (modify a f s)"
  by (erule graphInv_shrink) (auto simp: lookup_modify split: if_splits)

lemma graphInv_free: "graphInv s \<Longrightarrow> graphInv (free a s)"
  by (erule graphInv_shrink) (auto simp: lookup_free split: if_splits)

lemma drvPath_attach [simp]: "drvPath (attach rb rs st) = drvPath st"
  by (simp add: attach_def split: option.splits)

lemma drvPath_initStep [simp]: "drvPath (initStep lp d st) = drvPath st"
  by (simp add: initStep_def Let_def split: option.splits)

lemma drvPath_bump [simp]: "drvPath (bump b st) = drvPath st"
  by (simp add: bump_def)

lemma graphInv_getStep:
  assumes "getStep p rb rs s = Some (a, isNew, s1)" and "graphInv s"
  shows "graphInv s1"
  using assms(1)
proof (cases rule: getStep_cases)
  case (found st)
  then have "steps s p = Some a" by (simp add: findStep_Some)
  then have "(steps s)(p \<mapsto> a) = steps s" by (rule fun_upd_idem)
  with found(5) have s1: "s1 = (modify a (attach rb rs) s)\<lparr>steps := steps s\<rparr>" by simp
  from assms(2) show ?thesis
    by (rule graphInv_shrink) (auto simp: s1 lookup_modify split: if_splits)
next
  case new
  have dead: "lookup (heap s) b = None" if "steps s p = Some b" for b
    using new(1) that by (simp add: findStep_def split: option.splits)
  have lk: "lookup (heap s1) b =
      (if b = length (heap s) then Some (attach rb rs (newStep p)) else lookup (heap s) b)" for b
    by (auto simp: new lookup_modify lookup_append1)
  have st: "steps s1 = (steps s)(p \<mapsto> length (heap s))"
    by (simp add: new)
  have nolen: "steps s q \<noteq> Some (length (heap s))" for q
    using assms(2) unfolding graphInv_def by (metis less_irrefl)
  have len: "length (heap s1) = Suc (length (heap s))"
    by (simp add: new)
  show ?thesis
    unfolding graphInv_def
  proof (intro conjI allI impI)
    fix q b st'
    assume "steps s1 q = Some b \<and> lookup (heap s1) b = Some st'"
    then show "drvPath st' = q"
      using assms(2) nolen unfolding graphInv_def st lk
      by (auto simp: newStep_def split: if_splits)
  next
    fix b st'
    assume "lookup (heap s1) b = Some st'"
    then show "steps s1 (drvPath st') = Some b"
      using assms(2) dead unfolding graphInv_def st lk
      by (auto simp: newStep_def split: if_splits)
  next
    fix q b
    assume "steps s1 q = Some b"
    then show "b < length (heap s1)"
      using assms(2) unfolding graphInv_def st len
      by (auto simp: less_Suc_eq split: if_splits)
  qed
qed

lemma graphInv_dropValid: "graphInv s \<Longrightarrow> graphInv (dropValid a p d s)"
  by (erule graphInv_shrink)
     (auto simp: dropValid_def Let_def lookup_free lookup_modify split: if_splits)

lemma graphInv_beginStep: "graphInv s \<Longrightarrow> graphInv (beginStep a d s)"
  by (erule graphInv_shrink)
     (auto simp: beginStep_def Let_def lookup_modify split: if_splits)

lemma graphInv_addDep: "graphInv s \<Longrightarrow> graphInv (addDep a dep s)"
  by (erule graphInv_shrink)
     (auto simp: addDep_def lookup_modify split: if_splits option.splits)

lemma graphInv_finishStep: "finishStep a s = Some s' \<Longrightarrow> graphInv s \<Longrightarrow> graphInv s'"
  by (erule graphInv_shrink)
     (auto simp: finishStep_def Let_def lookup_modify split: if_splits option.splits)

subsection \<open>What createStep keeps\<close>

lemma createStep_length:
  "finalState (createStep n x p rb rs s) = Some s' \<Longrightarrow> length (heap s) \<le> length (heap s')"
  by (rule createStep_rel [where R = "\<lambda>b s t. length (heap s) \<le> length (heap t)"])
     (auto simp: length_getStep length_finishStep)

lemma createStep_graphOnly:
  "finalState (createStep n x p rb rs s) = Some s' \<Longrightarrow> graphOnly s s'"
proof -
  assume a: "finalState (createStep n x p rb rs s) = Some s'"
  have "graphOnly s s' \<and> length (heap s) \<le> length (heap s')"
    by (rule createStep_rel
          [where R = "\<lambda>b s t. graphOnly s t \<and> length (heap s) \<le> length (heap t)", OF _ _ _ _ _ _ _ _ _ _ a])
       (auto simp: length_getStep length_finishStep graphOnly_getStep graphOnly_finishStep
             intro: graphOnly_trans)
  then show ?thesis ..
qed

lemma createStep_extends:
  "finalState (createStep n x p rb rs s) = Some s' \<Longrightarrow> extendsBelow (length (heap s)) s s'"
  by (rule createStep_rel [where R = extendsBelow])
     (auto intro: extendsBelow_trans extendsBelow_mono extendsBelow_getStep extendsBelow_free
        extendsBelow_dropValid extendsBelow_beginStep extendsBelow_addDep extendsBelow_finishStep
        extendsBelow_length)

lemma createStep_addsAbove:
  "finalState (createStep n x p rb rs s) = Some s' \<Longrightarrow> addsAbove (length (heap s)) s s'"
proof -
  assume a: "finalState (createStep n x p rb rs s) = Some s'"
  have "addsAbove (length (heap s)) s s' \<and> length (heap s) \<le> length (heap s')"
    by (rule createStep_rel
          [where R = "\<lambda>b s t. addsAbove b s t \<and> length (heap s) \<le> length (heap t)", OF _ _ _ _ _ _ _ _ _ _ a])
       (auto simp: length_getStep length_finishStep
             intro: addsAbove_trans addsAbove_mono addsAbove_getStep addsAbove_dropValid
               addsAbove_beginStep addsAbove_addDep addsAbove_finishStep addsAbove_same)
  then show ?thesis ..
qed

lemma createStep_graphInv:
  "finalState (createStep n x p rb rs s) = Some s' \<Longrightarrow> graphInv s \<Longrightarrow> graphInv s'"
proof -
  assume a: "finalState (createStep n x p rb rs s) = Some s'"
  have "(graphInv s \<longrightarrow> graphInv s') \<and> length (heap s) \<le> length (heap s')"
    by (rule createStep_rel
          [where R = "\<lambda>b s t. (graphInv s \<longrightarrow> graphInv t) \<and> length (heap s) \<le> length (heap t)",
           OF _ _ _ _ _ _ _ _ _ _ a])
       (auto simp: length_getStep length_finishStep
             intro: graphInv_getStep graphInv_free graphInv_dropValid graphInv_beginStep
               graphInv_addDep graphInv_finishStep)
  then show "graphInv s \<Longrightarrow> graphInv s'" by blast
qed

subsection \<open>The loop over the input derivations\<close>

lemma createDeps_rel:
  fixes R :: "nat \<Rightarrow> State \<Rightarrow> State \<Rightarrow> bool"
  assumes refl: "\<And>b s. R b s s"
    and trans: "\<And>b s t u. R b s t \<Longrightarrow> R b t u \<Longrightarrow> R b s u"
    and mono: "\<And>b b' s t. b \<le> b' \<Longrightarrow> R b' s t \<Longrightarrow> R b s t"
    and len: "\<And>b s t. R b s t \<Longrightarrow> length (heap s) \<le> length (heap t)"
    and addDep: "\<And>dep s. R b s (addDep a dep s)"
    and step: "\<And>n p rb rs s s'. finalState (createStep n x p rb rs s) = Some s'
                \<Longrightarrow> R (length (heap s)) s s'"
    and "b \<le> length (heap s)" "finalState (createDeps n x a ps s) = Some s'"
  shows "R b s s'"
proof (rule createStep_rel_aux [where R = R and n = n and x = x and a = a and ps = ps])
  show "R b s s" for b s by (rule refl)
  show "R b s u" if "R b s t" "R b t u" for b s t u using that by (rule trans)
  show "R b s t" if "b \<le> b'" "R b' s t" for b b' s t using that by (rule mono)
  show "length (heap s) \<le> length (heap t)" if "R b s t" for b s t using that by (rule len)
  show "R b s (addDep a dep s)" for dep s by (rule addDep)
  show "R (length (heap s)) s s'" if "finalState (createStep n x p rb rs s) = Some s'"
    for p rb rs s s' using that by (rule step)
qed (use assms in auto)

lemma createDeps_extends:
  assumes "b \<le> length (heap s)" "b \<le> a" "finalState (createDeps n x a ps s) = Some s'"
  shows "extendsBelow b s s'"
  by (rule createDeps_rel [where R = extendsBelow, OF _ _ _ _ _ _ assms(1,3)])
     (auto intro: extendsBelow_trans extendsBelow_mono extendsBelow_addDep assms(2)
        extendsBelow_length createStep_extends)

lemma createDeps_addsAbove:
  assumes "b \<le> length (heap s)" "finalState (createDeps n x a ps s) = Some s'"
  shows "addsAbove b s s'"
proof -
  have "addsAbove b s s' \<and> length (heap s) \<le> length (heap s')"
    by (rule createDeps_rel
          [where R = "\<lambda>b s t. addsAbove b s t \<and> length (heap s) \<le> length (heap t)",
           OF _ _ _ _ _ _ assms])
       (auto intro: addsAbove_trans addsAbove_mono addsAbove_addDep createStep_addsAbove
          createStep_length)
  then show ?thesis ..
qed

lemma stepGrows_refl [simp]: "stepGrows st st"
  by (simp add: stepGrows_def)

lemma stepGrows_trans: "stepGrows a b \<Longrightarrow> stepGrows b c \<Longrightarrow> stepGrows a c"
  by (auto simp: stepGrows_def)

lemma stepLe_stepGrows: "stepLe a b \<Longrightarrow> stepGrows a b"
  by (auto simp: stepLe_def stepGrows_def)

lemma extendsBelow_lookup:
  "extendsBelow b s s' \<Longrightarrow> a < b \<Longrightarrow> lookup (heap s) a = Some st
     \<Longrightarrow> \<exists>st'. lookup (heap s') a = Some st' \<and> stepLe st st'"
  by (auto simp: extendsBelow_def split: option.splits) (metis option.simps(4,5))

lemma createDeps_keeps:
  "finalState (createDeps n x a ps s) = Some s' \<Longrightarrow> lookup (heap s) a = Some st
     \<Longrightarrow> \<exists>st'. lookup (heap s') a = Some st' \<and> stepGrows st st'"
proof (induction ps arbitrary: s st)
  case Nil
  then show ?case by auto
next
  case (Cons i ps)
  have a: "a < length (heap s)" using Cons.prems(2) by (rule lookup_Some_less)
  from Cons.prems(1) show ?case
  proof (cases rule: createDeps_final_Cons)
    case here
    from createStep_extends [OF here] a Cons.prems(2)
    show ?thesis by (blast dest: extendsBelow_lookup stepLe_stepGrows)
  next
    case (later dep s1)
    then have "finalState (createStep n x i None (Some a) s) = Some s1" by simp
    from createStep_extends [OF this] a Cons.prems(2)
    obtain st1 where st1: "lookup (heap s1) a = Some st1" "stepGrows st st1"
      by (blast dest: extendsBelow_lookup stepLe_stepGrows)
    then obtain st2 where st2: "lookup (heap (addDep a dep s1)) a = Some st2" "stepGrows st1 st2"
      by (cases dep) (auto simp: addDep_def lookup_modify stepGrows_def)
    from Cons.IH [OF later(2) st2(1)] obtain st' where
      "lookup (heap s') a = Some st'" "stepGrows st2 st'" by blast
    with st1 st2 show ?thesis by (blast intro: stepGrows_trans)
  qed
qed

subsection \<open>The step that createStep returns\<close>

lemma finishStep_result:
  assumes "finishStep a s = Some s'"
  obtains st where "lookup (heap s) a = Some st" "\<not> created st"
    "lookup (heap s') a = Some (st\<lparr>created := True\<rparr>)"
    "set (newRunnable s') = (if deps st = [] then insert a (set (newRunnable s)) else set (newRunnable s))"
  using assms
  by (auto simp: finishStep_def Let_def lookup_modify split: option.splits if_splits)

lemma getStep_new_lookup:
  assumes "getStep p rb rs s = Some (a, True, s1)"
  shows "lookup (heap s1) a = Some (attach rb rs (newStep p))"
  using assms by (cases rule: getStep_cases) (auto simp: lookup_modify lookup_append1)

lemma beginStep_lookup:
  "lookup (heap s) a = Some st
     \<Longrightarrow> lookup (heap (beginStep a d s)) a = Some (initStep (localPlatforms s) d st)"
  by (simp add: beginStep_def Let_def lookup_modify)

lemma initStep_fields [simp]:
  "created (initStep lp d st) = created st" "deps (initStep lp d st) = deps st"
  "builds (initStep lp d st) = builds st" "rdeps (initStep lp d st) = rdeps st"
  "drv (initStep lp d st) = d"
  by (simp_all add: initStep_def Let_def split: option.splits)

lemma attach_fields [simp]:
  "created (attach rb rs st) = created st" "deps (attach rb rs st) = deps st"
  "set (builds (attach rb rs st)) = set (builds st) \<union> set_option rb"
  "set (rdeps (attach rb rs st)) = set (rdeps st) \<union> set_option rs"
  by (auto simp: attach_def split: option.splits)

lemma createStep_built_result:
  assumes get: "getStep p rb rs s = Some (a, True, s1)"
    and deps: "createDeps n x a (map fst (inputDrvs d)) (beginStep a d s1) = Ok () s3"
    and fin: "finishStep a s3 = Some s'"
  obtains st where "lookup (heap s') a = Some st" "created st" "drvPath st = p" "drv st = d"
    "set_option rb \<subseteq> set (builds st)" "set_option rs \<subseteq> set (rdeps st)"
    "a \<in> set (newRunnable s') \<longleftrightarrow> deps st = [] \<or> a \<in> set (newRunnable s3)"
proof -
  from get have l1: "lookup (heap s1) a = Some (attach rb rs (newStep p))"
    by (rule getStep_new_lookup)
  then have l2: "lookup (heap (beginStep a d s1)) a
      = Some (initStep (localPlatforms s1) d (attach rb rs (newStep p)))"
    by (rule beginStep_lookup)
  from deps have "finalState (createDeps n x a (map fst (inputDrvs d)) (beginStep a d s1)) = Some s3"
    by simp
  from createDeps_keeps [OF this l2] obtain st3 where
    st3: "lookup (heap s3) a = Some st3"
      "stepGrows (initStep (localPlatforms s1) d (attach rb rs (newStep p))) st3"
    by blast
  from fin obtain st where st: "lookup (heap s3) a = Some st"
    "lookup (heap s') a = Some (st\<lparr>created := True\<rparr>)"
    "set (newRunnable s') = (if deps st = [] then insert a (set (newRunnable s3)) else set (newRunnable s3))"
    by (rule finishStep_result)
  with st3 have eq: "st = st3" by simp
  show ?thesis
  proof (rule that [of "st\<lparr>created := True\<rparr>"])
    show "lookup (heap s') a = Some (st\<lparr>created := True\<rparr>)" by fact
    show "created (st\<lparr>created := True\<rparr>)" by simp
    show "drvPath (st\<lparr>created := True\<rparr>) = p"
      using st3(2) eq by (simp add: stepGrows_def newStep_def)
    show "drv (st\<lparr>created := True\<rparr>) = d"
      using st3(2) eq by (simp add: stepGrows_def)
    show "set_option rb \<subseteq> set (builds (st\<lparr>created := True\<rparr>))"
      using st3(2) eq by (auto simp: stepGrows_def)
    show "set_option rs \<subseteq> set (rdeps (st\<lparr>created := True\<rparr>))"
      using st3(2) eq by (auto simp: stepGrows_def)
    show "a \<in> set (newRunnable s') \<longleftrightarrow> deps (st\<lparr>created := True\<rparr>) = [] \<or> a \<in> set (newRunnable s3)"
      using st(3) by auto
  qed
qed

lemma createStep_found_result:
  assumes "getStep p rb rs s = Some (a, False, s')"
  obtains st where "findStep p s = Some a" "lookup (heap s) a = Some st" "created st"
    "lookup (heap s') a = Some (attach rb rs st)" "length (heap s') = length (heap s)"
    "\<And>b. b \<noteq> a \<Longrightarrow> lookup (heap s') b = lookup (heap s) b"
    "steps s' = steps s" "newSteps s' = newSteps s" "newRunnable s' = newRunnable s"
    "finishedDrvs s' = finishedDrvs s"
  using assms
proof (cases rule: getStep_cases)
  case (found st)
  then have "steps s p = Some a" by (simp add: findStep_Some)
  then have "(steps s)(p \<mapsto> a) = steps s" by (rule fun_upd_idem)
  with found that [of st] show ?thesis
    by (simp add: lookup_modify)
qed simp

subsection \<open>Destruction of steps: what release keeps\<close>

lemma release_fold_other:
  "registry (fold (\<lambda>a s. if P a then s else free a s) cs s) = registry s
   \<and> steps (fold (\<lambda>a s. if P a then s else free a s) cs s) = steps s
   \<and> length (heap (fold (\<lambda>a s. if P a then s else free a s) cs s)) = length (heap s)
   \<and> graphOnly s (fold (\<lambda>a s. if P a then s else free a s) cs s)
   \<and> newSteps (fold (\<lambda>a s. if P a then s else free a s) cs s) = newSteps s
   \<and> newRunnable (fold (\<lambda>a s. if P a then s else free a s) cs s) = newRunnable s
   \<and> finishedDrvs (fold (\<lambda>a s. if P a then s else free a s) cs s) = finishedDrvs s"
  by (induction cs arbitrary: s) (auto simp: graphOnly_iff)

lemma release_other [simp]:
  "registry (release roots cs s) = registry s" "steps (release roots cs s) = steps s"
  "length (heap (release roots cs s)) = length (heap s)"
  "newSteps (release roots cs s) = newSteps s" "newRunnable (release roots cs s) = newRunnable s"
  "finishedDrvs (release roots cs s) = finishedDrvs s"
  by (simp_all add: release_def Let_def release_fold_other)

lemma graphOnly_release [simp]: "graphOnly s (release roots cs s)"
  by (simp add: release_def Let_def release_fold_other)

lemma release_Nil [simp]: "release roots [] s = s"
  by (simp add: release_def)

lemma lookup_release_fold:
  "lookup (heap (fold (\<lambda>a s. if P a then s else free a s) cs s)) b
     = (if b \<in> set cs \<and> \<not> P b then None else lookup (heap s) b)"
  by (induction cs arbitrary: s) (auto simp: lookup_free)

lemma lookup_release:
  "lookup (heap (release roots cs s)) b
     = (if b \<in> set cs \<and> b \<notin> set (walk (heap s) roots roots) then None else lookup (heap s) b)"
  by (simp add: release_def Let_def lookup_release_fold)

subsection \<open>The fields that the parts of the loader keep\<close>

lemma graphOnly_fields:
  assumes "graphOnly s s'"
  shows "registry s' = registry s" "nrBuildsDone s' = nrBuildsDone s"
    "nrBuildsRead s' = nrBuildsRead s" "nrAdded s' = nrAdded s" "dbBuilds s' = dbBuilds s"
    "dbBuildSteps s' = dbBuildSteps s" "newBuildsByID s' = newBuildsByID s"
    "newBuildsByPath s' = newBuildsByPath s" "newIDs s' = newIDs s" "runnable s' = runnable s"
    "jobsetRegistry s' = jobsetRegistry s" "lastBuildId s' = lastBuildId s"
    "localPlatforms s' = localPlatforms s" "buildOne s' = buildOne s"
    "dbJobsets s' = dbJobsets s" "nrQueueWakeups s' = nrQueueWakeups s"
  using assms by (simp_all add: graphOnly_iff)

lemma createStep_None_sets:
  assumes "createStep n x p rb rs s = Ok None s'"
  shows "newSteps s' = newSteps s" "newRunnable s' = newRunnable s"
proof -
  have "newSteps s' = newSteps s \<and> newRunnable s' = newRunnable s"
  proof (cases n)
    case 0
    with assms show ?thesis by simp
  next
    case (Suc m)
    from assms [unfolded Suc] show ?thesis
    proof (cases rule: createStep_Ok_cases)
      case (valid a s1 d)
      from valid(2) have "newSteps s1 = newSteps s \<and> newRunnable s1 = newRunnable s"
        by (cases rule: getStep_cases) simp_all
      with valid show ?thesis by (simp add: dropValid_def Let_def)
    qed simp_all
  qed
  then show "newSteps s' = newSteps s" "newRunnable s' = newRunnable s" by simp_all
qed

lemma enterBuild_fields [simp]:
  "heap (enterBuild b s) = heap s" "steps (enterBuild b s) = steps s"
  "registry (enterBuild b s) = registry s" "nrBuildsDone (enterBuild b s) = nrBuildsDone s"
  "dbBuilds (enterBuild b s) = dbBuilds s" "dbBuildSteps (enterBuild b s) = dbBuildSteps s"
  "newSteps (enterBuild b s) = newSteps s" "finishedDrvs (enterBuild b s) = finishedDrvs s"
  "newRunnable (enterBuild b s) = newRunnable s" "nrAdded (enterBuild b s) = nrAdded s + 1"
  "newBuildsByID (enterBuild b s) = AList.delete (build_id b) (newBuildsByID s)"
  "newBuildsByPath (enterBuild b s) = newBuildsByPath s" "nrBuildsRead (enterBuild b s) = nrBuildsRead s"
  "localPlatforms (enterBuild b s) = localPlatforms s" "runnable (enterBuild b s) = runnable s"
  by (simp_all add: enterBuild_def)

lemma newFrame_fields [simp]:
  "heap (newFrame s) = heap s" "steps (newFrame s) = steps s"
  "registry (newFrame s) = registry s" "nrBuildsDone (newFrame s) = nrBuildsDone s"
  "dbBuilds (newFrame s) = dbBuilds s" "dbBuildSteps (newFrame s) = dbBuildSteps s"
  "newSteps (newFrame s) = []" "finishedDrvs (newFrame s) = {}"
  "newRunnable (newFrame s) = newRunnable s" "nrAdded (newFrame s) = nrAdded s"
  "newBuildsByID (newFrame s) = newBuildsByID s"
  "newBuildsByPath (newFrame s) = newBuildsByPath s" "nrBuildsRead (newFrame s) = nrBuildsRead s"
  "localPlatforms (newFrame s) = localPlatforms s" "runnable (newFrame s) = runnable s"
  by (simp_all add: newFrame_def)

lemma leaveFrame_fields [simp]:
  "registry (leaveFrame s0 s) = registry s" "steps (leaveFrame s0 s) = steps s"
  "nrBuildsDone (leaveFrame s0 s) = nrBuildsDone s" "nrBuildsRead (leaveFrame s0 s) = nrBuildsRead s"
  "nrAdded (leaveFrame s0 s) = nrAdded s" "dbBuilds (leaveFrame s0 s) = dbBuilds s"
  "dbBuildSteps (leaveFrame s0 s) = dbBuildSteps s"
  "newBuildsByID (leaveFrame s0 s) = newBuildsByID s"
  "newBuildsByPath (leaveFrame s0 s) = newBuildsByPath s"
  "newSteps (leaveFrame s0 s) = newSteps s0" "finishedDrvs (leaveFrame s0 s) = finishedDrvs s0"
  "newRunnable (leaveFrame s0 s) = newRunnable s" "runnable (leaveFrame s0 s) = runnable s"
  "length (heap (leaveFrame s0 s)) = length (heap s)"
  by (simp_all add: leaveFrame_def graphOnly_fields [OF graphOnly_release])

lemma markSucceededBuild_fields [simp]:
  "heap (markSucceededBuild b r c t0 t1 s) = heap s" "steps (markSucceededBuild b r c t0 t1 s) = steps s"
  "registry (markSucceededBuild b r c t0 t1 s) = registry s"
  "nrBuildsDone (markSucceededBuild b r c t0 t1 s) = nrBuildsDone s"
  "newSteps (markSucceededBuild b r c t0 t1 s) = newSteps s"
  "newRunnable (markSucceededBuild b r c t0 t1 s) = newRunnable s"
  "finishedDrvs (markSucceededBuild b r c t0 t1 s) = finishedDrvs s"
  "nrAdded (markSucceededBuild b r c t0 t1 s) = nrAdded s"
  "newBuildsByID (markSucceededBuild b r c t0 t1 s) = newBuildsByID s"
  "newBuildsByPath (markSucceededBuild b r c t0 t1 s) = newBuildsByPath s"
  "dbBuildSteps (markSucceededBuild b r c t0 t1 s) = dbBuildSteps s"
  by (simp_all add: markSucceededBuild_def updateBuilds_def)

subsection \<open>A new step whose outputs are all valid\<close>

lemma findStep_frame [simp]:
  "findStep p (newFrame s) = findStep p s" "findStep p (enterBuild b s) = findStep p s"
  by (simp_all add: findStep_def cong: option.case_cong)

lemma createStep_all_valid:
  assumes "p \<notin> finishedDrvs s" and "findStep p s = None"
    and "readDerivation x p = Some d" and "allValid x d"
  shows "\<exists>s1. getStep p rb rs s = Some (length (heap s), True, s1)
     \<and> createStep (Suc n) x p rb rs s = Ok None (dropValid (length (heap s)) p d s1)"
  using assms by (simp add: getStep_new createStep.simps)

lemma dropValid_fields [simp]:
  "steps (dropValid a p d s) = steps s" "finishedDrvs (dropValid a p d s) = insert p (finishedDrvs s)"
  "newSteps (dropValid a p d s) = newSteps s" "newRunnable (dropValid a p d s) = newRunnable s"
  by (simp_all add: dropValid_def Let_def)

lemma lookup_dropValid:
  "lookup (heap (dropValid a p d s)) b = (if b = a then None else lookup (heap s) b)"
  by (simp add: dropValid_def Let_def lookup_free lookup_modify)

subsection \<open>The check of the new steps\<close>

lemma classify_success:
  "fst (classify x a r st) = bsSuccess
     \<longleftrightarrow> \<not> checkCachedFailure x st \<and> list_ex (\<lambda>m. m st) (machines x)"
  by (simp add: classify_def)

lemma firstBad_Cons:
  "firstBad x a (r # rs) s =
     (case lookup (heap s) r of
        None \<Rightarrow> firstBad x a rs s
      | Some st \<Rightarrow>
          if fst (classify x a r st) \<noteq> bsSuccess
          then Some (r, st, fst (classify x a r st), snd (classify x a r st))
          else firstBad x a rs s)"
  by (simp add: case_prod_unfold Let_def split: option.splits)

declare firstBad.simps(2) [simp del]

lemma firstBad_Some:
  assumes "firstBad x a rs s = Some (r, st, bs, bss)"
  shows "\<exists>pre post. rs = pre @ r # post
      \<and> (\<forall>q \<in> set pre. \<forall>st'. lookup (heap s) q = Some st'
            \<longrightarrow> \<not> checkCachedFailure x st' \<and> list_ex (\<lambda>m. m st') (machines x))
      \<and> lookup (heap s) r = Some st \<and> classify x a r st = (bs, bss) \<and> bs \<noteq> bsSuccess"
  using assms
proof (induction rs)
  case Nil
  then show ?case by simp
next
  case (Cons q rs)
  show ?case
  proof (cases "lookup (heap s) q")
    case None
    with Cons.prems have "firstBad x a rs s = Some (r, st, bs, bss)" by (simp add: firstBad_Cons)
    from Cons.IH [OF this] obtain pre post where
      "rs = pre @ r # post"
      "\<forall>q \<in> set pre. \<forall>st'. lookup (heap s) q = Some st'
            \<longrightarrow> \<not> checkCachedFailure x st' \<and> list_ex (\<lambda>m. m st') (machines x)"
      "lookup (heap s) r = Some st \<and> classify x a r st = (bs, bss) \<and> bs \<noteq> bsSuccess"
      by blast
    with None show ?thesis
      by (intro exI [of _ "q # pre"] exI [of _ post]) simp
  next
    case (Some stq)
    show ?thesis
    proof (cases "fst (classify x a q stq) = bsSuccess")
      case True
      with Some Cons.prems have "firstBad x a rs s = Some (r, st, bs, bss)"
        by (simp add: firstBad_Cons)
      from Cons.IH [OF this] obtain pre post where
        "rs = pre @ r # post"
        "\<forall>q \<in> set pre. \<forall>st'. lookup (heap s) q = Some st'
              \<longrightarrow> \<not> checkCachedFailure x st' \<and> list_ex (\<lambda>m. m st') (machines x)"
        "lookup (heap s) r = Some st \<and> classify x a r st = (bs, bss) \<and> bs \<noteq> bsSuccess"
        by blast
      with Some True show ?thesis
        by (intro exI [of _ "q # pre"] exI [of _ post]) (simp add: classify_success)
    next
      case False
      with Some Cons.prems have "r = q" "st = stq" "classify x a q stq = (bs, bss)"
        by (auto simp: firstBad_Cons prod_eq_iff)
      with Some False show ?thesis
        by (intro exI [of _ "[]"] exI [of _ rs]) simp
    qed
  qed
qed

lemma firstBad_None:
  assumes "firstBad x a rs s = None" and "r \<in> set rs" and "lookup (heap s) r = Some st"
  shows "\<not> checkCachedFailure x st \<and> list_ex (\<lambda>m. m st) (machines x)"
  using assms
  by (induction rs)
     (auto simp: firstBad_Cons classify_success split: option.splits if_splits)

lemma failBuildInDB_fields [simp]:
  "heap (failBuildInDB i bs t s) = heap s" "steps (failBuildInDB i bs t s) = steps s"
  "registry (failBuildInDB i bs t s) = registry s"
  "nrBuildsDone (failBuildInDB i bs t s) = nrBuildsDone s"
  "dbBuildSteps (failBuildInDB i bs t s) = dbBuildSteps s"
  "newSteps (failBuildInDB i bs t s) = newSteps s"
  "newRunnable (failBuildInDB i bs t s) = newRunnable s"
  "finishedDrvs (failBuildInDB i bs t s) = finishedDrvs s"
  "nrAdded (failBuildInDB i bs t s) = nrAdded s"
  "newBuildsByID (failBuildInDB i bs t s) = newBuildsByID s"
  "newBuildsByPath (failBuildInDB i bs t s) = newBuildsByPath s"
  by (simp_all add: failBuildInDB_def updateBuilds_def)

lemma createBuildStep_fields [simp]:
  "heap (createBuildStep t b st bss s) = heap s" "steps (createBuildStep t b st bss s) = steps s"
  "registry (createBuildStep t b st bss s) = registry s"
  "nrBuildsDone (createBuildStep t b st bss s) = nrBuildsDone s"
  "dbBuilds (createBuildStep t b st bss s) = dbBuilds s"
  "newSteps (createBuildStep t b st bss s) = newSteps s"
  "newRunnable (createBuildStep t b st bss s) = newRunnable s"
  "finishedDrvs (createBuildStep t b st bss s) = finishedDrvs s"
  "nrAdded (createBuildStep t b st bss s) = nrAdded s"
  "newBuildsByID (createBuildStep t b st bss s) = newBuildsByID s"
  "newBuildsByPath (createBuildStep t b st bss s) = newBuildsByPath s"
  by (simp_all add: createBuildStep_def)

subsection \<open>The counter of finished builds\<close>

lemma graphOnly_fold_modify: "graphOnly s (fold (\<lambda>a. modify a f) as s)"
proof (induction as arbitrary: s)
  case Nil
  show ?case by simp
next
  case (Cons a as)
  have "graphOnly s (modify a f s)" by simp
  moreover have "graphOnly (modify a f s) (fold (\<lambda>a. modify a f) as (modify a f s))"
    by (rule Cons.IH)
  ultimately have "graphOnly s (fold (\<lambda>a. modify a f) as (modify a f s))"
    by (rule graphOnly_trans)
  then show ?case by simp
qed

lemma graphOnly_propagatePriorities [simp]: "graphOnly s (propagatePriorities b s)"
  by (simp add: propagatePriorities_def visitDependencies_def graphOnly_fold_modify
        split: option.splits)

lemma finishBuild_counter:
  assumes "finishBuild x build step s = Ok b' s'"
  shows "nrBuildsDone s' = nrBuildsDone s +
      (case step of
         None \<Rightarrow> 0
       | Some a \<Rightarrow> if firstBad x a (newSteps s) s \<noteq> None \<and> \<not> finishedInDB build then 1 else 0)"
proof (cases step)
  case None
  with assms show ?thesis
    by (auto simp: finishBuild_def split: option.splits)
next
  case (Some a)
  show ?thesis
  proof (cases "firstBad x a (newSteps s) s")
    case None
    with Some assms show ?thesis
      by (auto simp: finishBuild_def Let_def graphOnly_fields [OF graphOnly_propagatePriorities]
            split: if_splits)
  next
    case (Some t)
    with \<open>step = Some a\<close> assms show ?thesis
      by (cases t) (auto simp: finishBuild_def split: if_splits)
  qed
qed

subsection \<open>Case analysis of createBuild\<close>

lemma createBuild_final_cases:
  assumes "finalState (createBuild (Suc n) x build s0) = Some s'"
  obtains (invalid) "\<not> isValidPath x (build_drvPath build)"
      "s' = (if finishedInDB build then enterBuild build s0
             else abortBuild x build (enterBuild build s0))"
  | (stepThrow) e s1 where "isValidPath x (build_drvPath build)"
      "createStep n x (build_drvPath build) (Some (build_id build)) None
         (newFrame (enterBuild build s0)) = Throw e s1"
      "s' = leaveFrame s0 s1"
  | (nestedThrow) step s1 e s2 where "isValidPath x (build_drvPath build)"
      "createStep n x (build_drvPath build) (Some (build_id build)) None
         (newFrame (enterBuild build s0)) = Ok step s1"
      "loadNested n x (newSteps s1) s1 = Throw e s2"
      "s' = leaveFrame s0 s2"
  | (finished) step s1 s2 s3 where "isValidPath x (build_drvPath build)"
      "createStep n x (build_drvPath build) (Some (build_id build)) None
         (newFrame (enterBuild build s0)) = Ok step s1"
      "loadNested n x (newSteps s1) s1 = Ok () s2"
      "finalState (finishBuild x build step s2) = Some s3"
      "s' = leaveFrame s0 s3"
  using assms
  by (auto simp: createBuild.simps split: if_splits outcome.splits)

lemma loadNested_final_Cons:
  assumes "finalState (loadNested n x (r # rs) s) = Some s'"
  obtains (skip) "nestedBuild r s = None" "finalState (loadNested n x rs s) = Some s'"
  | (here) b where "nestedBuild r s = Some b" "finalState (createBuild n x b s) = Some s'"
  | (later) b b' s1 where "nestedBuild r s = Some b" "createBuild n x b s = Ok b' s1"
      "finalState (loadNested n x rs s1) = Some s'"
  using assms by (auto split: option.splits outcome.splits)

declare createBuild.simps(2) [simp del]

lemma loadNested_rule:
  assumes cb: "\<And>build s0 s'. PreB build s0 \<Longrightarrow> Pre s0
      \<Longrightarrow> finalState (createBuild n x build s0) = Some s' \<Longrightarrow> Post s0 s'"
    and nested: "\<And>r s b. Pre s \<Longrightarrow> nestedBuild r s = Some b \<Longrightarrow> PreB b s"
    and refl: "\<And>s. Pre s \<Longrightarrow> Post s s"
    and trans: "\<And>s t u. Post s t \<Longrightarrow> Post t u \<Longrightarrow> Post s u"
    and pre: "\<And>s t. Pre s \<Longrightarrow> Post s t \<Longrightarrow> Pre t"
  shows "Pre s \<Longrightarrow> finalState (loadNested n x rs s) = Some s' \<Longrightarrow> Post s s'"
proof (induction rs arbitrary: s)
  case Nil
  then show ?case by (simp add: refl)
next
  case (Cons r rs)
  from Cons.prems(2) show ?case
  proof (cases rule: loadNested_final_Cons)
    case skip
    with Cons show ?thesis by blast
  next
    case (here b)
    from nested [OF Cons.prems(1) here(1)] Cons.prems(1) here(2) show ?thesis by (rule cb)
  next
    case (later b b' s1)
    then have "finalState (createBuild n x b s) = Some s1" by simp
    with nested [OF Cons.prems(1) later(1)] Cons.prems(1) have p1: "Post s s1" by (rule cb)
    with Cons.prems(1) have "Pre s1" by (rule pre)
    then have "Post s1 s'" using later(3) by (rule Cons.IH)
    with p1 show ?thesis by (rule trans)
  qed
qed

lemma createBuild_rule:
  assumes build: "\<And>n build s0 s'.
      (\<And>rs s t. Pre s \<Longrightarrow> finalState (loadNested n x rs s) = Some t \<Longrightarrow> Post s t)
      \<Longrightarrow> PreB build s0 \<Longrightarrow> Pre s0
      \<Longrightarrow> finalState (createBuild (Suc n) x build s0) = Some s' \<Longrightarrow> Post s0 s'"
    and nested: "\<And>r s b. Pre s \<Longrightarrow> nestedBuild r s = Some b \<Longrightarrow> PreB b s"
    and refl: "\<And>s. Pre s \<Longrightarrow> Post s s"
    and trans: "\<And>s t u. Post s t \<Longrightarrow> Post t u \<Longrightarrow> Post s u"
    and pre: "\<And>s t. Pre s \<Longrightarrow> Post s t \<Longrightarrow> Pre t"
  shows "PreB build s0 \<Longrightarrow> Pre s0 \<Longrightarrow> finalState (createBuild n x build s0) = Some s'
           \<Longrightarrow> Post s0 s'"
proof (induction n arbitrary: build s0 s')
  case 0
  then show ?case by simp
next
  case (Suc n)
  have ln: "Post s t" if "Pre s" "finalState (loadNested n x rs s) = Some t" for rs s t
    using that
  proof (rule loadNested_rule [where PreB = PreB and Pre = Pre and Post = Post, rotated -2])
    show "Post s0 s'" if "PreB build s0" "Pre s0" "finalState (createBuild n x build s0) = Some s'"
      for build s0 s' using that by (rule Suc.IH)
    show "PreB b s" if "Pre s" "nestedBuild r s = Some b" for r s b using that by (rule nested)
    show "Post s s" if "Pre s" for s using that by (rule refl)
    show "Post s u" if "Post s t" "Post t u" for s t u using that by (rule trans)
    show "Pre t" if "Pre s" "Post s t" for s t using that by (rule pre)
  qed
  from ln Suc.prems show ?case by (rule build)
qed

subsection \<open>Counting the builds that are loaded\<close>

lemma sameQueue_refl [simp]: "sameQueue s s"
  by (simp add: sameQueue_def)

lemma sameQueue_trans: "sameQueue s t \<Longrightarrow> sameQueue t u \<Longrightarrow> sameQueue s u"
  by (simp add: sameQueue_def)

lemma graphOnly_sameQueue: "graphOnly s t \<Longrightarrow> sameQueue s t"
  by (simp add: sameQueue_def graphOnly_iff)

lemma sameQueue_simple [simp]:
  "sameQueue s (newFrame s)" "sameQueue s (abortBuild x b s)" "sameQueue s (leaveFrame s0 s)"
  "sameQueue s (markSucceededBuild b r c t0 t1 s)" "sameQueue s (propagatePriorities b s)"
  by (simp_all add: sameQueue_def newFrame_def abortBuild_def abortBuildInDB_def updateBuilds_def
        leaveFrame_def markSucceededBuild_def graphOnly_fields [OF graphOnly_release]
        graphOnly_fields [OF graphOnly_propagatePriorities])

lemma finishBuild_sameQueue:
  assumes "finalState (finishBuild x build step s) = Some s'"
  shows "sameQueue s s'"
proof (cases step)
  case None
  with assms show ?thesis
    by (auto simp: finishBuild_def split: option.splits)
next
  case (Some a)
  show ?thesis
  proof (cases "firstBad x a (newSteps s) s")
    case None
    have "sameQueue (s\<lparr>registry := r\<rparr>) (propagatePriorities b (s\<lparr>registry := r\<rparr>))" for r b
      by simp
    then have "sameQueue s (propagatePriorities b (s\<lparr>registry := r\<rparr>))" for r b
      by (simp add: sameQueue_def)
    with None Some assms show ?thesis
      by (auto simp: finishBuild_def Let_def split: if_splits)
  next
    case (Some t)
    with \<open>step = Some a\<close> assms show ?thesis
      by (cases t)
         (auto simp: finishBuild_def sameQueue_def failBuildInDB_def updateBuilds_def
            createBuildStep_def split: if_splits)
  qed
qed

lemma createStep_sameQueue:
  "finalState (createStep n x p rb rs s) = Some s' \<Longrightarrow> sameQueue s s'"
  by (rule graphOnly_sameQueue) (rule createStep_graphOnly)

lemma counted_refl: "keyed s \<Longrightarrow> counted s s"
  by (simp add: counted_def)

lemma counted_trans:
  assumes "counted s t" and "counted t u"
  shows "counted s u"
proof -
  from assms have "fst ` set (newBuildsByID u) \<subseteq> fst ` set (newBuildsByID s)"
    unfolding counted_def by (meson subset_trans)
  with assms show ?thesis by (simp add: counted_def)
qed

lemma counted_sameQueue: "counted s t \<Longrightarrow> sameQueue t u \<Longrightarrow> counted s u"
  by (auto simp: counted_def sameQueue_def keyed_def)

lemma keyed_enterBuild:
  assumes "keyed s" and "build_id b \<in> fst ` set (newBuildsByID s)"
  shows "counted s (enterBuild b s)" "build_id b \<notin> fst ` set (newBuildsByID (enterBuild b s))"
proof -
  from assms have "Suc (length (AList.delete (build_id b) (newBuildsByID s))) = length (newBuildsByID s)"
    by (intro length_delete) (simp_all add: keyed_def)
  moreover have "keyed (enterBuild b s)"
    using assms(1) by (auto simp: keyed_def sorted_delete distinct_delete dest: set_delete)
  ultimately show "counted s (enterBuild b s)"
    by (auto simp: counted_def keys_delete enterBuild_def)
  show "build_id b \<notin> fst ` set (newBuildsByID (enterBuild b s))"
    by (simp add: keys_delete)
qed

lemma nestedBuild_key:
  assumes "keyed s" and "nestedBuild r s = Some b"
  shows "build_id b \<in> fst ` set (newBuildsByID s)"
proof -
  from assms(2) obtain i where "map_of (newBuildsByID s) i = Some b"
    by (auto simp: nestedBuild_def split: option.splits)
  then have "(i, b) \<in> set (newBuildsByID s)" by (rule map_of_SomeD)
  with assms(1) show ?thesis by (force simp: keyed_def)
qed

lemma createBuild_counted:
  assumes "build_id build \<in> fst ` set (newBuildsByID s0)" and "keyed s0"
    and "finalState (createBuild n x build s0) = Some s'"
  shows "counted s0 s'"
  using assms
proof (rule createBuild_rule
    [where PreB = "\<lambda>b s. build_id b \<in> fst ` set (newBuildsByID s)" and Pre = keyed
       and Post = counted, rotated 5])
  fix n build s0 s'
  assume ln: "\<And>rs s t. keyed s \<Longrightarrow> finalState (loadNested n x rs s) = Some t \<Longrightarrow> counted s t"
    and key: "build_id build \<in> fst ` set (newBuildsByID s0)" and k: "keyed s0"
    and fin: "finalState (createBuild (Suc n) x build s0) = Some s'"
  note e = keyed_enterBuild(1) [OF k key]
  have f: "counted s0 (newFrame (enterBuild build s0))"
    using e by (rule counted_sameQueue) simp
  from fin show "counted s0 s'"
  proof (cases rule: createBuild_final_cases)
    case invalid
    with e show ?thesis by (auto intro: counted_sameQueue)
  next
    case (stepThrow e s1)
    then have "finalState (createStep n x (build_drvPath build) (Some (build_id build)) None
         (newFrame (enterBuild build s0))) = Some s1"
      by simp
    then have "sameQueue (newFrame (enterBuild build s0)) s1"
      by (rule createStep_sameQueue)
    with f have "counted s0 s1" by (rule counted_sameQueue)
    with stepThrow(3) show ?thesis by (auto intro: counted_sameQueue)
  next
    case (nestedThrow step s1 e s2)
    then have "finalState (createStep n x (build_drvPath build) (Some (build_id build)) None
         (newFrame (enterBuild build s0))) = Some s1"
      by simp
    then have "sameQueue (newFrame (enterBuild build s0)) s1"
      by (rule createStep_sameQueue)
    with f have c1: "counted s0 s1" by (rule counted_sameQueue)
    then have "keyed s1" by (simp add: counted_def)
    moreover have "finalState (loadNested n x (newSteps s1) s1) = Some s2"
      using nestedThrow(3) by simp
    ultimately have "counted s1 s2" by (rule ln)
    with c1 have "counted s0 s2" by (rule counted_trans)
    with nestedThrow(4) show ?thesis by (auto intro: counted_sameQueue)
  next
    case (finished step s1 s2 s3)
    then have "finalState (createStep n x (build_drvPath build) (Some (build_id build)) None
         (newFrame (enterBuild build s0))) = Some s1"
      by simp
    then have "sameQueue (newFrame (enterBuild build s0)) s1"
      by (rule createStep_sameQueue)
    with f have c1: "counted s0 s1" by (rule counted_sameQueue)
    then have "keyed s1" by (simp add: counted_def)
    moreover have "finalState (loadNested n x (newSteps s1) s1) = Some s2"
      using finished(3) by simp
    ultimately have "counted s1 s2" by (rule ln)
    with c1 have "counted s0 s2" by (rule counted_trans)
    then have "counted s0 s3"
      using finishBuild_sameQueue [OF finished(4)] by (rule counted_sameQueue)
    with finished(5) show ?thesis by (auto intro: counted_sameQueue)
  qed
next
  show "counted s s" if "keyed s" for s using that by (rule counted_refl)
  show "counted s u" if "counted s t" "counted t u" for s t u using that by (rule counted_trans)
  show "keyed t" if "keyed s" "counted s t" for s t using that by (simp add: counted_def)
  show "build_id b \<in> fst ` set (newBuildsByID s)" if "keyed s" "nestedBuild r s = Some b" for r s b
    using that by (rule nestedBuild_key)
qed

lemma createBuild_key_gone:
  assumes "build_id build \<in> fst ` set (newBuildsByID s0)" and "keyed s0"
    and "finalState (createBuild n x build s0) = Some s'"
  shows "build_id build \<notin> fst ` set (newBuildsByID s')"
proof (cases n)
  case 0
  with assms(3) show ?thesis by simp
next
  case (Suc m)
  let ?e = "enterBuild build s0"
  have ke: "keyed ?e" and gone: "build_id build \<notin> fst ` set (newBuildsByID ?e)"
    using keyed_enterBuild [OF assms(2,1)] by (simp_all add: counted_def)
  have ln: "counted s t" if "keyed s" "finalState (loadNested m x rs s) = Some t" for rs s t
    using that
  proof (rule loadNested_rule
      [where PreB = "\<lambda>b s. build_id b \<in> fst ` set (newBuildsByID s)" and Pre = keyed
         and Post = counted, rotated -2])
    show "counted s0 s'" if "build_id build \<in> fst ` set (newBuildsByID s0)" "keyed s0"
      "finalState (createBuild m x build s0) = Some s'" for build s0 s'
      using that by (rule createBuild_counted)
    show "counted s s" if "keyed s" for s using that by (rule counted_refl)
    show "counted s u" if "counted s t" "counted t u" for s t u using that by (rule counted_trans)
    show "keyed t" if "keyed s" "counted s t" for s t using that by (simp add: counted_def)
    show "build_id b \<in> fst ` set (newBuildsByID s)" if "keyed s" "nestedBuild r s = Some b" for r s b
      using that by (rule nestedBuild_key)
  qed
  have f: "counted ?e (newFrame ?e)"
    using counted_refl [OF ke] by (rule counted_sameQueue) simp
  have "counted ?e s'"
    using assms(3) [unfolded Suc]
  proof (cases rule: createBuild_final_cases)
    case invalid
    with counted_refl [OF ke] show ?thesis by (auto intro: counted_sameQueue)
  next
    case (stepThrow e s1)
    then have "finalState (createStep m x (build_drvPath build) (Some (build_id build)) None
         (newFrame ?e)) = Some s1"
      by simp
    then have "sameQueue (newFrame ?e) s1"
      by (rule createStep_sameQueue)
    with f have "counted ?e s1" by (rule counted_sameQueue)
    with stepThrow(3) show ?thesis by (auto intro: counted_sameQueue)
  next
    case (nestedThrow step s1 e s2)
    then have "finalState (createStep m x (build_drvPath build) (Some (build_id build)) None
         (newFrame ?e)) = Some s1"
      by simp
    then have "sameQueue (newFrame ?e) s1"
      by (rule createStep_sameQueue)
    with f have c1: "counted ?e s1" by (rule counted_sameQueue)
    then have "keyed s1" by (simp add: counted_def)
    moreover have "finalState (loadNested m x (newSteps s1) s1) = Some s2"
      using nestedThrow(3) by simp
    ultimately have "counted s1 s2" by (rule ln)
    with c1 have "counted ?e s2" by (rule counted_trans)
    with nestedThrow(4) show ?thesis by (auto intro: counted_sameQueue)
  next
    case (finished step s1 s2 s3)
    then have "finalState (createStep m x (build_drvPath build) (Some (build_id build)) None
         (newFrame ?e)) = Some s1"
      by simp
    then have "sameQueue (newFrame ?e) s1"
      by (rule createStep_sameQueue)
    with f have c1: "counted ?e s1" by (rule counted_sameQueue)
    then have "keyed s1" by (simp add: counted_def)
    moreover have "finalState (loadNested m x (newSteps s1) s1) = Some s2"
      using finished(3) by simp
    ultimately have "counted s1 s2" by (rule ln)
    with c1 have "counted ?e s2" by (rule counted_trans)
    then have "counted ?e s3"
      using finishBuild_sameQueue [OF finished(4)] by (rule counted_sameQueue)
    with finished(5) show ?thesis by (auto intro: counted_sameQueue)
  qed
  with gone show ?thesis by (auto simp: counted_def)
qed

subsection \<open>Reading the queue\<close>

lemma createJobset_final:
  assumes "finalState (createJobset x p j s) = Some s'"
  shows "\<exists>r. s' = s\<lparr>jobsetRegistry := r\<rparr>"
  using assms
  by (auto simp: createJobset_def Let_def split: option.splits list.splits intro: exI [of _ "jobsetRegistry s"])

lemma readRow_old:
  assumes "readRow x row s = Ok u s'" and "\<not> rowIsNew s row"
  shows "registry s' = registry s" "buildOne s' = buildOne s" "nrBuildsRead s' = nrBuildsRead s"
    "heap s' = heap s" "steps s' = steps s"
    "newBuildsByID s' = newBuildsByID s" "newIDs s' = newIDs s"
    "newBuildsByPath s' = newBuildsByPath s"
  using assms by (auto simp: readRow_def rowIsNew_def Let_def split: if_splits)

lemma readRow_new:
  assumes "readRow x row s = Ok u s'" and "rowIsNew s row"
  obtains js where "registry s' = registry s" "buildOne s' = buildOne s"
    "nrBuildsRead s' = nrBuildsRead s" "heap s' = heap s" "steps s' = steps s"
    "newBuildsByID s' = map_assign (row_id row) (buildOfRow row js) (newBuildsByID s)"
    "newIDs s' = newIDs s @ [row_id row]"
    "newBuildsByPath s' = newBuildsByPath s @ [(row_drvPath row, row_id row)]"
proof -
  let ?s1 = "if lastBuildId s < row_id row then s\<lparr>lastBuildId := row_id row\<rparr> else s"
  from assms obtain js s2 where
    cj: "createJobset x (row_project row) (row_jobset row) ?s1 = Ok js s2"
    by (auto simp: readRow_def rowIsNew_def Let_def split: if_splits outcome.splits)
  then have "finalState (createJobset x (row_project row) (row_jobset row) ?s1) = Some s2"
    by simp
  then obtain r where s2: "s2 = ?s1\<lparr>jobsetRegistry := r\<rparr>"
    using createJobset_final by blast
  from assms cj have s': "s' = s2\<lparr>newIDs := newIDs s2 @ [row_id row],
       newBuildsByID := map_assign (row_id row) (buildOfRow row js) (newBuildsByID s2),
       newBuildsByPath := newBuildsByPath s2 @ [(row_drvPath row, row_id row)]\<rparr>"
    by (auto simp: readRow_def rowIsNew_def Let_def split: if_splits)
  show ?thesis
    by (rule that [of js]) (simp_all add: s' s2)
qed

lemma readRows_keys:
  assumes "readRows x rows s = Ok u s'" and "keyed s"
    and "fst ` set (newBuildsByID s) \<subseteq> set (newIDs s)"
  shows "keyed s' \<and> fst ` set (newBuildsByID s') \<subseteq> set (newIDs s')
    \<and> nrBuildsRead s' = nrBuildsRead s \<and> registry s' = registry s \<and> buildOne s' = buildOne s
    \<and> fst ` set (newBuildsByID s') =
         fst ` set (newBuildsByID s) \<union> row_id ` {r \<in> set rows. rowIsNew s r}"
  using assms
proof (induction rows arbitrary: s)
  case Nil
  then show ?case by simp
next
  case (Cons row rows)
  from Cons.prems(1) obtain s1 where r1: "readRow x row s = Ok () s1"
    and rs: "readRows x rows s1 = Ok u s'"
    by (auto split: outcome.splits)
  have k1: "keyed s1 \<and> fst ` set (newBuildsByID s1) \<subseteq> set (newIDs s1)
    \<and> nrBuildsRead s1 = nrBuildsRead s \<and> registry s1 = registry s \<and> buildOne s1 = buildOne s
    \<and> fst ` set (newBuildsByID s1) =
         fst ` set (newBuildsByID s) \<union> (if rowIsNew s row then {row_id row} else {})"
  proof (cases "rowIsNew s row")
    case True
    from r1 True obtain js where f: "registry s1 = registry s" "buildOne s1 = buildOne s"
      "nrBuildsRead s1 = nrBuildsRead s"
      "newBuildsByID s1 = map_assign (row_id row) (buildOfRow row js) (newBuildsByID s)"
      "newIDs s1 = newIDs s @ [row_id row]"
      by (rule readRow_new)
    have "sorted (map fst (newBuildsByID s1)) \<and> distinct (map fst (newBuildsByID s1))"
      unfolding f using Cons.prems(2) by (intro sorted_map_assign) (simp_all add: keyed_def)
    moreover have "build_id (snd e) = fst e" if "e \<in> set (newBuildsByID s1)" for e
      using that Cons.prems(2) unfolding f
      by (auto simp: keyed_def buildOfRow_def dest!: set_map_assign)
    ultimately have "keyed s1" by (simp add: keyed_def)
    with f True Cons.prems(3) show ?thesis
      by (auto simp: keys_map_assign)
  next
    case False
    with readRow_old [OF r1 False] Cons.prems(2,3) show ?thesis
      by (simp add: keyed_def)
  qed
  then have "keyed s1" "fst ` set (newBuildsByID s1) \<subseteq> set (newIDs s1)" by blast+
  from Cons.IH [OF rs this] have ih:
    "keyed s'" "fst ` set (newBuildsByID s') \<subseteq> set (newIDs s')"
    "nrBuildsRead s' = nrBuildsRead s1" "registry s' = registry s1" "buildOne s' = buildOne s1"
    "fst ` set (newBuildsByID s') =
         fst ` set (newBuildsByID s1) \<union> row_id ` {r \<in> set rows. rowIsNew s1 r}"
    by blast+
  have same: "rowIsNew s1 r = rowIsNew s r" for r
    using k1 by (simp add: rowIsNew_def)
  have "fst ` set (newBuildsByID s') =
         fst ` set (newBuildsByID s) \<union> row_id ` {r \<in> set (row # rows). rowIsNew s r}"
    unfolding ih(6) same using k1 by auto
  with ih(1-5) k1 show ?case by simp
qed

subsection \<open>The loop over the new builds\<close>

lemma clearNewRunnable_fields [simp]:
  "newBuildsByID (clearNewRunnable s) = newBuildsByID s" "nrBuildsRead (clearNewRunnable s) = nrBuildsRead s"
  "newIDs (clearNewRunnable s) = newIDs s" "registry (clearNewRunnable s) = registry s"
  "steps (clearNewRunnable s) = steps s" "newRunnable (clearNewRunnable s) = []"
  "newSteps (clearNewRunnable s) = newSteps s" "nrAdded (clearNewRunnable s) = nrAdded s"
  "length (heap (clearNewRunnable s)) = length (heap s)"
  "newBuildsByPath (clearNewRunnable s) = newBuildsByPath s"
  "nrBuildsDone (clearNewRunnable s) = nrBuildsDone s" "dbBuilds (clearNewRunnable s) = dbBuilds s"
proof -
  have g: "graphOnly (s\<lparr>newRunnable := []\<rparr>) (clearNewRunnable s)"
    by (simp add: clearNewRunnable_def)
  show "newBuildsByID (clearNewRunnable s) = newBuildsByID s" "nrBuildsRead (clearNewRunnable s) = nrBuildsRead s"
    "newIDs (clearNewRunnable s) = newIDs s" "registry (clearNewRunnable s) = registry s"
    "nrAdded (clearNewRunnable s) = nrAdded s" "newBuildsByPath (clearNewRunnable s) = newBuildsByPath s"
    "nrBuildsDone (clearNewRunnable s) = nrBuildsDone s" "dbBuilds (clearNewRunnable s) = dbBuilds s"
    using graphOnly_fields [OF g] by simp_all
  show "steps (clearNewRunnable s) = steps s" "newRunnable (clearNewRunnable s) = []"
    "newSteps (clearNewRunnable s) = newSteps s" "length (heap (clearNewRunnable s)) = length (heap s)"
    by (simp_all add: clearNewRunnable_def)
qed

lemma fold_makeRunnable_fields [simp]:
  "newBuildsByID (fold makeRunnable as s) = newBuildsByID s"
  "nrBuildsRead (fold makeRunnable as s) = nrBuildsRead s"
  "nrAdded (fold makeRunnable as s) = nrAdded s" "newIDs (fold makeRunnable as s) = newIDs s"
  "heap (fold makeRunnable as s) = heap s" "steps (fold makeRunnable as s) = steps s"
  "registry (fold makeRunnable as s) = registry s" "newRunnable (fold makeRunnable as s) = newRunnable s"
  "newSteps (fold makeRunnable as s) = newSteps s"
  "newBuildsByPath (fold makeRunnable as s) = newBuildsByPath s"
  by (induction as arbitrary: s; simp add: makeRunnable_def)+

lemma keyed_cong:
  "newBuildsByID t = newBuildsByID s \<Longrightarrow> keyed t = keyed s"
  by (simp add: keyed_def)

lemma loadBuilds_count:
  assumes "loadBuilds n x ids s = Ok u s'" and "keyed s"
    and "fst ` set (newBuildsByID s) \<subseteq> set ids"
  shows "nrBuildsRead s' = nrBuildsRead s + length (newBuildsByID s) \<and> newBuildsByID s' = []"
  using assms
proof (induction ids arbitrary: s)
  case Nil
  then show ?case by simp
next
  case (Cons i ids)
  show ?case
  proof (cases "map_of (newBuildsByID s) i")
    case None
    then have "i \<notin> fst ` set (newBuildsByID s)"
      by (simp add: map_of_eq_None_iff)
    with Cons.prems(3) have "fst ` set (newBuildsByID s) \<subseteq> set ids" by auto
    moreover from None Cons.prems(1) have "loadBuilds n x ids s = Ok u s'" by simp
    ultimately show ?thesis using Cons.prems(2) by (intro Cons.IH)
  next
    case (Some build)
    let ?c = "(clearNewRunnable s)\<lparr>nrAdded := 0\<rparr>"
    from Some Cons.prems(1) obtain b s1 where
      cb: "createBuild n x build ?c = Ok b s1"
      and rest: "loadBuilds n x ids
          ((fold makeRunnable (newRunnable s1) s1)\<lparr>nrBuildsRead := nrBuildsRead s1 + nrAdded s1\<rparr>)
          = Ok u s'"
      by (auto split: outcome.splits)
    let ?s2 = "(fold makeRunnable (newRunnable s1) s1)\<lparr>nrBuildsRead := nrBuildsRead s1 + nrAdded s1\<rparr>"
    from Some have mem: "(i, build) \<in> set (newBuildsByID s)" by (rule map_of_SomeD)
    with Cons.prems(2) have id: "build_id build = i" by (force simp: keyed_def)
    have kc: "keyed ?c" using Cons.prems(2) by (simp add: keyed_def)
    have key: "build_id build \<in> fst ` set (newBuildsByID ?c)"
      using mem id by force
    from cb have fin: "finalState (createBuild n x build ?c) = Some s1" by simp
    from createBuild_counted [OF key kc fin] have c: "counted ?c s1" .
    from createBuild_key_gone [OF key kc fin] have gone: "i \<notin> fst ` set (newBuildsByID s1)"
      by (simp add: id)
    from c have k2: "keyed ?s2" by (simp add: counted_def keyed_def)
    from c have "fst ` set (newBuildsByID s1) \<subseteq> fst ` set (newBuildsByID ?c)"
      by (simp add: counted_def)
    with gone Cons.prems(3) have "fst ` set (newBuildsByID s1) \<subseteq> set ids"
      by fastforce
    then have sub: "fst ` set (newBuildsByID ?s2) \<subseteq> set ids"
      by simp
    from Cons.IH [OF rest k2 sub] have
      "nrBuildsRead s' = nrBuildsRead ?s2 + length (newBuildsByID ?s2)" "newBuildsByID s' = []"
      by simp_all
    moreover from c have "nrAdded s1 + length (newBuildsByID s1) = length (newBuildsByID s)"
      "nrBuildsRead s1 = nrBuildsRead s"
      by (simp_all add: counted_def)
    ultimately show ?thesis by simp
  qed
qed

subsection \<open>The traversal visits every step that is reachable\<close>

lemma fresh_set:
  "set (fresh h queued ds) = {d \<in> set ds. d \<notin> set queued \<and> lookup h d \<noteq> None}"
  by (auto simp: fresh_def)

lemma walk_todo:
  "a \<in> set todo \<Longrightarrow> lookup h a \<noteq> None \<Longrightarrow> a \<in> set (walk h todo queued)"
proof (induction h todo queued rule: walk.induct)
  case (1 h queued)
  then show ?case by simp
next
  case (2 h b todo queued)
  show ?case
  proof (cases "lookup h b")
    case None
    with 2 show ?thesis by auto
  next
    case (Some st)
    with 2 show ?thesis by auto
  qed
qed

lemma walk_closed:
  "a \<in> set (walk h todo queued) \<Longrightarrow> lookup h a = Some st \<Longrightarrow> d \<in> set (deps st)
     \<Longrightarrow> lookup h d \<noteq> None \<Longrightarrow> d \<in> set (walk h todo queued) \<or> d \<in> set queued"
proof (induction h todo queued rule: walk.induct)
  case (1 h queued)
  then show ?case by simp
next
  case (2 h b todo queued)
  show ?case
  proof (cases "lookup h b")
    case None
    with 2 show ?thesis by auto
  next
    case (Some stb)
    let ?new = "fresh h queued (deps stb)"
    let ?V = "walk h (todo @ ?new) (queued @ ?new)"
    have new: "e \<in> set ?V" if "e \<in> set ?new" for e
    proof -
      from that have "lookup h e \<noteq> None" by (simp add: fresh_set)
      moreover from that have "e \<in> set (todo @ ?new)" by simp
      ultimately show ?thesis by (rule walk_todo [rotated])
    qed
    from "2.prems"(1) Some have "a = b \<or> a \<in> set ?V" by auto
    then show ?thesis
    proof
      assume "a = b"
      with "2.prems" Some have "d \<in> set queued \<or> d \<in> set ?new"
        by (auto simp: fresh_set)
      with new Some show ?thesis by auto
    next
      assume "a \<in> set ?V"
      from "2.IH"(2) [OF Some this "2.prems"(2,3,4)]
      have "d \<in> set ?V \<or> d \<in> set queued \<or> d \<in> set ?new" by auto
      with new Some show ?thesis by auto
    qed
  qed
qed

lemma reaches_live: "reaches h a c \<Longrightarrow> \<exists>sa. lookup h a = Some sa"
  by (induction rule: reaches.induct) auto

lemma walk_complete:
  assumes "reaches h t a"
  shows "a \<in> set (walk h [t] [t])"
  using assms
proof (induction rule: reaches.induct)
  case (start a st)
  then show ?case by (intro walk_todo) simp_all
next
  case (dep a c st d st')
  from walk_closed [OF dep.IH dep.hyps(2,3)] dep.hyps(4)
  have "d \<in> set (walk h [a] [a]) \<or> d = a" by simp
  moreover have "a \<in> set (walk h [a] [a])"
  proof -
    from reaches_live [OF dep.hyps(1)] obtain sa where "lookup h a = Some sa" ..
    then show ?thesis by (intro walk_todo) simp_all
  qed
  ultimately show ?case by auto
qed

subsection \<open>The visitor of propagatePriorities\<close>

lemma bumped_bump [simp]: "bumped b (bump b st)"
  by (simp add: bumped_def bump_def)

lemma raised_refl [simp]: "raised st st"
  by (simp add: raised_def)

lemma raised_trans: "raised a b \<Longrightarrow> raised b c \<Longrightarrow> raised a c"
  unfolding raised_def
  by (cases a, cases b, cases c) auto

lemma raised_bump [simp]: "raised st (bump b st)"
  by (auto simp: raised_def bump_def)

lemma bumped_raised: "bumped b st \<Longrightarrow> raised st st' \<Longrightarrow> bumped b st'"
  by (auto simp: bumped_def raised_def)

lemma fold_bump:
  assumes "lookup (heap s) c = Some st"
  shows "\<exists>st'. lookup (heap (fold (\<lambda>a. modify a (bump b)) vs s)) c = Some st' \<and> raised st st'
           \<and> (c \<in> set vs \<longrightarrow> bumped b st')"
  using assms
proof (induction vs arbitrary: s st)
  case Nil
  then show ?case by simp
next
  case (Cons v vs)
  let ?s1 = "modify v (bump b) s"
  from Cons.prems have l1: "lookup (heap ?s1) c = Some (if c = v then bump b st else st)"
    by (auto simp: lookup_modify)
  from Cons.IH [OF l1] obtain st' where
    st': "lookup (heap (fold (\<lambda>a. modify a (bump b)) vs ?s1)) c = Some st'"
      "raised (if c = v then bump b st else st) st'"
      "c \<in> set vs \<longrightarrow> bumped b st'"
    by blast
  have "raised st (if c = v then bump b st else st)" by simp
  from this st'(2) have le: "raised st st'" by (rule raised_trans)
  have "bumped b st'" if "c = v"
    using st'(2) that by (auto intro: bumped_raised [OF bumped_bump])
  with st' le show ?case by auto
qed

lemma fold_bump_None:
  "lookup (heap s) c = None \<Longrightarrow> lookup (heap (fold (\<lambda>a. modify a (bump b)) vs s)) c = None"
proof (induction vs arbitrary: s)
  case Nil
  then show ?case by simp
next
  case (Cons v vs)
  from Cons.prems have "lookup (heap (modify v (bump b) s)) c = None"
    by (auto simp: lookup_modify)
  from Cons.IH [OF this] show ?case by simp
qed

lemma fold_modify_length [simp]:
  "length (heap (fold (\<lambda>a. modify a f) vs s)) = length (heap s)"
  by (induction vs arbitrary: s) simp_all

lemma fold_modify_heap_only:
  "fold (\<lambda>a. modify a f) vs s = s\<lparr>heap := heap (fold (\<lambda>a. modify a f) vs s)\<rparr>"
proof (induction vs arbitrary: s)
  case Nil
  show ?case by simp
next
  case (Cons v vs)
  have m: "modify v f s = s\<lparr>heap := heap (modify v f s)\<rparr>"
    by (simp add: modify_def split: option.splits)
  have "fold (\<lambda>a. modify a f) (v # vs) s = fold (\<lambda>a. modify a f) vs (modify v f s)" by simp
  also have "\<dots> = (modify v f s)\<lparr>heap := heap (fold (\<lambda>a. modify a f) vs (modify v f s))\<rparr>"
    by (rule Cons.IH)
  also have "\<dots> = s\<lparr>heap := heap (fold (\<lambda>a. modify a f) vs (modify v f s))\<rparr>"
    by (subst m) simp
  finally show ?case by simp
qed

subsection \<open>processQueueChange\<close>

lemma discardBuild_fields [simp]:
  "registry (discardBuild i b s) = AList.delete i (registry s)"
  "dbBuilds (discardBuild i b s) = dbBuilds s"
  by (simp_all add: discardBuild_def Let_def graphOnly_fields [OF graphOnly_release])

lemma propagatePriorities_fields [simp]:
  "registry (propagatePriorities b s) = registry s"
  "dbBuilds (propagatePriorities b s) = dbBuilds s"
  by (simp_all add: graphOnly_fields [OF graphOnly_propagatePriorities])

lemma queueChangeStep_dbBuilds [simp]: "dbBuilds (queueChangeStep cur i s) = dbBuilds s"
  by (simp add: queueChangeStep_def Let_def split: option.splits)

lemma fold_queueChangeStep_dbBuilds [simp]:
  "dbBuilds (fold (queueChangeStep cur) ks s) = dbBuilds s"
  by (induction ks arbitrary: s) simp_all

lemma currentIds_processQueueChange: "currentIds (processQueueChange s) = currentIds s"
  by (simp add: currentIds_def processQueueChange_def)

lemma map_of_queueChangeStep:
  "map_of (registry (queueChangeStep cur i s)) j =
     (if j = i
      then (case map_of (registry s) i of
              None \<Rightarrow> None
            | Some b \<Rightarrow> (case map_of cur i of
                          None \<Rightarrow> None
                        | Some p \<Rightarrow> Some (if globalPriority b < p then b\<lparr>globalPriority := p\<rparr> else b)))
      else map_of (registry s) j)"
  by (auto simp: queueChangeStep_def Let_def map_of_map_assign delete_conv' split: option.splits)

lemma queueChangeStep_settles: "settled cur (registry (queueChangeStep cur i s)) i"
  by (simp add: settled_def map_of_queueChangeStep split: option.splits)

lemma queueChangeStep_keeps:
  "settled cur (registry s) j \<Longrightarrow> settled cur (registry (queueChangeStep cur i s)) j"
  by (cases "j = i") (simp_all add: queueChangeStep_settles, simp add: settled_def map_of_queueChangeStep)

lemma fold_queueChangeStep_settles:
  "(\<And>j. j \<in> set ks \<or> settled cur (registry s) j)
     \<Longrightarrow> settled cur (registry (fold (queueChangeStep cur) ks s)) j"
proof (induction ks arbitrary: s j)
  case Nil
  then show ?case by simp
next
  case (Cons k ks)
  have "j' \<in> set ks \<or> settled cur (registry (queueChangeStep cur k s)) j'" for j'
    using Cons.prems [of j'] by (auto intro: queueChangeStep_settles queueChangeStep_keeps)
  from Cons.IH [OF this] show ?case by simp
qed

lemma settled_start: "j \<in> set (map fst r) \<or> settled cur r j"
  by (cases "map_of r j") (auto simp: settled_def dest: map_of_SomeD intro: rev_image_eqI)

lemma processQueueChange_settled:
  "settled (currentIds s) (registry (processQueueChange s)) j"
  unfolding processQueueChange_def
  by (rule fold_queueChangeStep_settles) (rule settled_start)

lemma queueChangeStep_id: "settled cur (registry s) i \<Longrightarrow> queueChangeStep cur i s = s"
  by (simp add: queueChangeStep_def settled_def split: option.splits)

lemma fold_queueChangeStep_id:
  "(\<And>j. settled cur (registry s) j) \<Longrightarrow> fold (queueChangeStep cur) ks s = s"
  by (induction ks) (simp_all add: queueChangeStep_id)

subsection \<open>Evaluation\<close>

text \<open>The definitions that evaluate the model at a concrete input.\<close>

lemmas model_defs =
  getStep_def findStep_def alloc_def lookup_def modify_def attach_def newStep_def initStep_def
  allValid_def beginStep_def dropValid_def finishStep_def addDep_def free_def set_insert_def
  createStep.simps createBuild.simps enterBuild_def newFrame_def abortBuild_def leaveFrame_def
  release_def registryRoots_def fresh_def finishBuild_def classify_def nestedBuild_def
  firstBad.simps
  propagatePriorities_def visitDependencies_def bump_def makeRunnable_def
  abortBuildInDB_def failBuildInDB_def updateBuilds_def createBuildStep_def markSucceededBuild_def
  getQueuedBuilds_def readRow_def buildOfRow_def createJobset_def recentSteps_def addStep_def queuedRows_def
  clearNewRunnable_def leavePass_def finalState_def afterPass_def
  smallStore_def validStore_def failingStore_def simpleDrv_def emptyState_def queueState_def
  newBuildIds_def rowIsNew_def
  queuedBuild_def queuedRow_def loadedStep_def expandedState_def Let_def

subsection \<open>What a call of createBuild does to the steps that exist\<close>

lemma extendsBelow_fold_free:
  "(\<And>c. c \<in> set cs \<Longrightarrow> b \<le> c)
     \<Longrightarrow> extendsBelow b s (fold (\<lambda>a s. if P a then s else free a s) cs s)"
proof (induction cs arbitrary: s)
  case Nil
  show ?case by simp
next
  case (Cons c cs)
  have 1: "extendsBelow b s (if P c then s else free c s)"
    using Cons.prems [of c] by (simp add: extendsBelow_free)
  have "extendsBelow b (if P c then s else free c s)
          (fold (\<lambda>a s. if P a then s else free a s) cs (if P c then s else free c s))"
    by (rule Cons.IH) (simp add: Cons.prems)
  with 1 show ?case by (auto intro: extendsBelow_trans)
qed

lemma extendsBelow_release:
  "(\<And>c. c \<in> set cs \<Longrightarrow> b \<le> c) \<Longrightarrow> extendsBelow b s (release roots cs s)"
  by (simp add: release_def Let_def extendsBelow_fold_free)

lemma extendsBelow_leaveFrame:
  assumes "\<And>c. c \<in> set (newSteps s) \<Longrightarrow> b \<le> c"
  shows "extendsBelow b s (leaveFrame s0 s)"
proof -
  have "extendsBelow b s (release (registryRoots s @ newRunnable s) (newSteps s) s)"
    using assms by (rule extendsBelow_release)
  moreover have "extendsBelow b (release (registryRoots s @ newRunnable s) (newSteps s) s)
       (leaveFrame s0 s)"
    by (rule extendsBelow_heap_eq) (simp add: leaveFrame_def)
  ultimately show ?thesis by (rule extendsBelow_trans)
qed

lemma extendsBelow_fold_modify:
  "(\<And>st. stepLe st (f st)) \<Longrightarrow> extendsBelow b s (fold (\<lambda>a. modify a f) vs s)"
proof (induction vs arbitrary: s)
  case Nil
  show ?case by simp
next
  case (Cons v vs)
  have "extendsBelow b s (modify v f s)" by (rule extendsBelow_modify_le) (rule Cons.prems)
  moreover have "extendsBelow b (modify v f s) (fold (\<lambda>a. modify a f) vs (modify v f s))"
    by (rule Cons.IH) (rule Cons.prems)
  ultimately show ?case by (auto intro: extendsBelow_trans)
qed

lemma extendsBelow_propagatePriorities: "extendsBelow c s (propagatePriorities b s)"
  by (simp add: propagatePriorities_def visitDependencies_def extendsBelow_fold_modify
        split: option.splits)

lemma abortBuild_fields [simp]:
  "heap (abortBuild x b s) = heap s" "steps (abortBuild x b s) = steps s"
  "registry (abortBuild x b s) = registry s" "newSteps (abortBuild x b s) = newSteps s"
  "newRunnable (abortBuild x b s) = newRunnable s" "finishedDrvs (abortBuild x b s) = finishedDrvs s"
  by (simp_all add: abortBuild_def abortBuildInDB_def updateBuilds_def)

lemma propagatePriorities_frame [simp]:
  "steps (propagatePriorities b s) = steps s" "newSteps (propagatePriorities b s) = newSteps s"
  "newRunnable (propagatePriorities b s) = newRunnable s"
  "finishedDrvs (propagatePriorities b s) = finishedDrvs s"
  "length (heap (propagatePriorities b s)) = length (heap s)"
proof -
  have *: "propagatePriorities b s = s\<lparr>heap := heap (propagatePriorities b s)\<rparr>"
    by (cases "toplevel b")
       (simp_all add: propagatePriorities_def visitDependencies_def fold_modify_heap_only [symmetric])
  show "steps (propagatePriorities b s) = steps s" by (subst *) simp
  show "newSteps (propagatePriorities b s) = newSteps s" by (subst *) simp
  show "newRunnable (propagatePriorities b s) = newRunnable s" by (subst *) simp
  show "finishedDrvs (propagatePriorities b s) = finishedDrvs s" by (subst *) simp
  show "length (heap (propagatePriorities b s)) = length (heap s)"
    by (simp add: propagatePriorities_def visitDependencies_def split: option.splits)
qed

text \<open>The outcomes of \<open>finishBuild\<close>.\<close>

lemma finishBuild_final_cases:
  assumes "finalState (finishBuild x build step s) = Some s'"
  obtains (unreadable) "step = None" "readDerivation x (build_drvPath build) = None" "s' = s"
  | (cached) d where "step = None" "readDerivation x (build_drvPath build) = Some d"
      "s' = markSucceededBuild build (getBuildOutput x d) True (time0 x) (time0 x) s"
  | (failed) a r st buildStatus buildStepStatus where "step = Some a"
      "firstBad x a (newSteps s) s = Some (r, st, buildStatus, buildStepStatus)"
      "s' = (if \<not> finishedInDB build
             then (failBuildInDB (build_id build) buildStatus (time0 x)
                           (createBuildStep 0 build st buildStepStatus s))
                          \<lparr>nrBuildsDone := nrBuildsDone s + 1\<rparr>
             else s)"
  | (admitted) a where "step = Some a" "firstBad x a (newSteps s) s = None"
      "s' = propagatePriorities (build\<lparr>toplevel := Some a\<rparr>)
              (if \<not> finishedInDB build
               then s\<lparr>registry := map_assign (build_id build) (build\<lparr>toplevel := Some a\<rparr>) (registry s)\<rparr>
               else s)"
proof (cases step)
  case None
  show ?thesis
  proof (cases "readDerivation x (build_drvPath build)")
    case None2: None
    with assms None have "s' = s" by (simp add: finishBuild_def)
    with None None2 show ?thesis by (rule unreadable)
  next
    case (Some d)
    with assms None
    have "s' = markSucceededBuild build (getBuildOutput x d) True (time0 x) (time0 x) s"
      by (simp add: finishBuild_def)
    with None Some show ?thesis by (rule cached)
  qed
next
  case (Some a)
  show ?thesis
  proof (cases "firstBad x a (newSteps s) s")
    case None
    with assms Some
    have "s' = propagatePriorities (build\<lparr>toplevel := Some a\<rparr>)
              (if \<not> finishedInDB build
               then s\<lparr>registry := map_assign (build_id build) (build\<lparr>toplevel := Some a\<rparr>) (registry s)\<rparr>
               else s)"
      by (simp add: finishBuild_def Let_def)
    with Some None show ?thesis by (rule admitted)
  next
    case bad: (Some t)
    obtain r st buildStatus buildStepStatus where t: "t = (r, st, buildStatus, buildStepStatus)"
      by (cases t)
    from assms Some bad t
    have "s' = (if \<not> finishedInDB build
             then (failBuildInDB (build_id build) buildStatus (time0 x)
                           (createBuildStep 0 build st buildStepStatus s))
                          \<lparr>nrBuildsDone := nrBuildsDone s + 1\<rparr>
             else s)"
      by (simp add: finishBuild_def split: if_splits)
    with Some bad [unfolded t] show ?thesis by (rule failed)
  qed
qed

lemma finishBuild_frame:
  assumes "finalState (finishBuild x build step s) = Some s'"
  shows "extendsBelow b s s'" "newSteps s' = newSteps s" "steps s' = steps s"
    "newRunnable s' = newRunnable s" "length (heap s') = length (heap s)"
proof -
  from assms have "extendsBelow b s s' \<and> newSteps s' = newSteps s \<and> steps s' = steps s
      \<and> newRunnable s' = newRunnable s \<and> length (heap s') = length (heap s)"
  proof (cases rule: finishBuild_final_cases)
    case unreadable
    then show ?thesis by simp
  next
    case (cached d)
    then show ?thesis by (simp add: extendsBelow_heap_eq)
  next
    case (failed a r st buildStatus buildStepStatus)
    then show ?thesis by (simp add: extendsBelow_heap_eq)
  next
    case (admitted a)
    let ?b' = "build\<lparr>toplevel := Some a\<rparr>"
    let ?s1 = "if \<not> finishedInDB build
               then s\<lparr>registry := map_assign (build_id build) ?b' (registry s)\<rparr> else s"
    have "extendsBelow b s ?s1" by (rule extendsBelow_heap_eq) simp
    moreover have "extendsBelow b ?s1 (propagatePriorities ?b' ?s1)"
      by (rule extendsBelow_propagatePriorities)
    ultimately have "extendsBelow b s s'" unfolding admitted(3) by (rule extendsBelow_trans)
    moreover have "newSteps s' = newSteps s" "steps s' = steps s" "newRunnable s' = newRunnable s"
      "length (heap s') = length (heap s)"
      unfolding admitted(3) by simp_all
    ultimately show ?thesis by simp
  qed
  then show "extendsBelow b s s'" "newSteps s' = newSteps s" "steps s' = steps s"
    "newRunnable s' = newRunnable s" "length (heap s') = length (heap s)"
    by simp_all
qed

lemma createBuild_frame:
  assumes "finalState (createBuild n x build s0) = Some s'"
  shows "extendsBelow (length (heap s0)) s0 s' \<and> newSteps s' = newSteps s0"
proof -
  have "True" "True" by simp_all
  then show ?thesis using assms
  proof (rule createBuild_rule
      [where PreB = "\<lambda>b s. True" and Pre = "\<lambda>s. True"
         and Post = "\<lambda>s t. extendsBelow (length (heap s)) s t \<and> newSteps t = newSteps s", rotated 5])
    fix n build s0 s'
    assume ln: "\<And>rs s t. True \<Longrightarrow> finalState (loadNested n x rs s) = Some t
        \<Longrightarrow> extendsBelow (length (heap s)) s t \<and> newSteps t = newSteps s"
      and fin: "finalState (createBuild (Suc n) x build s0) = Some s'"
    let ?A = "newFrame (enterBuild build s0)"
    let ?b = "length (heap s0)"
    have eA: "extendsBelow ?b s0 ?A" by (rule extendsBelow_heap_eq) simp
    have step: "extendsBelow ?b s0 s1 \<and> (\<forall>c \<in> set (newSteps s1). ?b \<le> c)
        \<and> ?b \<le> length (heap s1)"
      if "finalState (createStep n x (build_drvPath build) (Some (build_id build)) None ?A) = Some s1"
      for s1
    proof -
      from createStep_extends [OF that] have "extendsBelow ?b ?A s1" by simp
      with eA have "extendsBelow ?b s0 s1" by (rule extendsBelow_trans)
      moreover from createStep_addsAbove [OF that] have "\<forall>c \<in> set (newSteps s1). ?b \<le> c"
        by (auto simp: addsAbove_def)
      moreover from createStep_length [OF that] have "?b \<le> length (heap s1)" by simp
      ultimately show ?thesis by simp
    qed
    have nested: "extendsBelow ?b s0 s2 \<and> (\<forall>c \<in> set (newSteps s2). ?b \<le> c)"
      if "finalState (createStep n x (build_drvPath build) (Some (build_id build)) None ?A) = Some s1"
        and "finalState (loadNested n x (newSteps s1) s1) = Some s2"
      for s1 s2
    proof -
      from ln [OF TrueI that(2)] have l: "extendsBelow (length (heap s1)) s1 s2"
        "newSteps s2 = newSteps s1" by simp_all
      from step [OF that(1)] have s1: "extendsBelow ?b s0 s1" "\<forall>c \<in> set (newSteps s1). ?b \<le> c"
        "?b \<le> length (heap s1)" by simp_all
      from s1(3) l(1) have "extendsBelow ?b s1 s2" by (rule extendsBelow_mono)
      with s1(1) have "extendsBelow ?b s0 s2" by (rule extendsBelow_trans)
      with s1(2) l(2) show ?thesis by simp
    qed
    have leave: "extendsBelow ?b s0 (leaveFrame s0 s) \<and> newSteps (leaveFrame s0 s) = newSteps s0"
      if "extendsBelow ?b s0 s" "\<forall>c \<in> set (newSteps s). ?b \<le> c" for s
    proof -
      from that(2) have "extendsBelow ?b s (leaveFrame s0 s)"
        by (intro extendsBelow_leaveFrame) simp
      with that(1) have "extendsBelow ?b s0 (leaveFrame s0 s)" by (rule extendsBelow_trans)
      then show ?thesis by simp
    qed
    from fin show "extendsBelow ?b s0 s' \<and> newSteps s' = newSteps s0"
    proof (cases rule: createBuild_final_cases)
      case invalid
      then show ?thesis by (simp add: extendsBelow_heap_eq)
    next
      case (stepThrow e s1)
      from stepThrow(2) have "finalState (createStep n x (build_drvPath build)
          (Some (build_id build)) None ?A) = Some s1" by simp
      from step [OF this] show ?thesis unfolding stepThrow(3) by (intro leave) simp_all
    next
      case (nestedThrow step' s1 e s2)
      from nestedThrow(2,3) have "finalState (createStep n x (build_drvPath build)
          (Some (build_id build)) None ?A) = Some s1"
        "finalState (loadNested n x (newSteps s1) s1) = Some s2" by simp_all
      from nested [OF this] show ?thesis unfolding nestedThrow(4) by (intro leave) simp_all
    next
      case (finished step' s1 s2 s3)
      from finished(2,3) have "finalState (createStep n x (build_drvPath build)
          (Some (build_id build)) None ?A) = Some s1"
        "finalState (loadNested n x (newSteps s1) s1) = Some s2" by simp_all
      from nested [OF this] have n2: "extendsBelow ?b s0 s2" "\<forall>c \<in> set (newSteps s2). ?b \<le> c"
        by simp_all
      from finishBuild_frame(1,2) [OF finished(4)] have "extendsBelow ?b s2 s3"
        "newSteps s3 = newSteps s2" by simp_all
      with n2 have "extendsBelow ?b s0 s3" "\<forall>c \<in> set (newSteps s3). ?b \<le> c"
        by (simp_all add: extendsBelow_trans [of ?b s0 s2 s3])
      then show ?thesis unfolding finished(5) by (rule leave)
    qed
  next
    show "extendsBelow (length (heap s)) s s \<and> newSteps s = newSteps s" for s by simp
  next
    fix s t u
    assume "extendsBelow (length (heap s)) s t \<and> newSteps t = newSteps s"
      "extendsBelow (length (heap t)) t u \<and> newSteps u = newSteps t"
    then have st: "extendsBelow (length (heap s)) s t" "newSteps t = newSteps s"
      and tu: "extendsBelow (length (heap t)) t u" "newSteps u = newSteps t" by simp_all
    from st(1) have "length (heap s) \<le> length (heap t)" by (rule extendsBelow_length)
    then have "extendsBelow (length (heap s)) t u" using tu(1) by (rule extendsBelow_mono)
    with st(1) have "extendsBelow (length (heap s)) s u" by (rule extendsBelow_trans)
    with st(2) tu(2) show "extendsBelow (length (heap s)) s u \<and> newSteps u = newSteps s"
      by simp
  qed simp_all
qed

lemma loadNested_frame:
  assumes "finalState (loadNested n x rs s) = Some s'"
  shows "extendsBelow (length (heap s)) s s' \<and> newSteps s' = newSteps s"
proof -
  have "True" by simp
  then show ?thesis using assms
  proof (rule loadNested_rule
      [where PreB = "\<lambda>b s. True" and Pre = "\<lambda>s. True"
         and Post = "\<lambda>s t. extendsBelow (length (heap s)) s t \<and> newSteps t = newSteps s", rotated 5])
    show "extendsBelow (length (heap s0)) s0 s' \<and> newSteps s' = newSteps s0"
      if "finalState (createBuild n x build s0) = Some s'" for build s0 s'
      using that by (rule createBuild_frame)
  next
    fix s t u
    assume "extendsBelow (length (heap s)) s t \<and> newSteps t = newSteps s"
      "extendsBelow (length (heap t)) t u \<and> newSteps u = newSteps t"
    then have st: "extendsBelow (length (heap s)) s t" "newSteps t = newSteps s"
      and tu: "extendsBelow (length (heap t)) t u" "newSteps u = newSteps t" by simp_all
    from st(1) have "length (heap s) \<le> length (heap t)" by (rule extendsBelow_length)
    then have "extendsBelow (length (heap s)) t u" using tu(1) by (rule extendsBelow_mono)
    with st(1) have "extendsBelow (length (heap s)) s u" by (rule extendsBelow_trans)
    with st(2) tu(2) show "extendsBelow (length (heap s)) s u \<and> newSteps u = newSteps s"
      by simp
  qed simp_all
qed

subsection \<open>Claim C6: a build whose derivation was garbage-collected\<close>

text \<open>
  C6. When the derivation path of a build is not a valid store path and the build is not
  yet finished in the database, \<^verbatim>\<open>createBuild\<close> returns with \<^verbatim>\<open>finishedInDB\<close> set;
  the \<^verbatim>\<open>Builds\<close> row of the build, if still unfinished, is finished with status
  \<^verbatim>\<open>bsAborted\<close>, the message of the garbage-collected derivation, and one time as start
  and stop time; \<^verbatim>\<open>nrBuildsDone\<close> grows by one; no step is created and the registry
  is not touched.
\<close>

theorem createBuild_garbage_collected:
  assumes "\<not> isValidPath x (build_drvPath build)" and "\<not> finishedInDB build"
  shows "\<exists>s'. createBuild (Suc n) x build s = Ok (build\<lparr>finishedInDB := True\<rparr>) s'
     \<and> dbBuilds s' =
         map (\<lambda>r. if row_id r = build_id build \<and> row_finished r = 0
                   then r\<lparr>row_finished := 1, row_busy := 0, row_buildStatus := Some bsAborted,
                          row_startTime := Some (time0 x), row_stopTime := Some (time0 x),
                          row_errorMsg := Some ''derivation was garbage-collected prior to build''\<rparr>
                   else r) (dbBuilds s)
     \<and> nrBuildsDone s' = nrBuildsDone s + 1
     \<and> heap s' = heap s \<and> steps s' = steps s \<and> registry s' = registry s"
  using assms
  by (simp add: createBuild.simps abortBuild_def enterBuild_def abortBuildInDB_def updateBuilds_def)

theorem createBuild_garbage_collected_witness:
  "\<not> isValidPath smallStore (build_drvPath (queuedBuild 1 ''/d/z.drv'' 0))
   \<and> \<not> finishedInDB (queuedBuild 1 ''/d/z.drv'' 0)
   \<and> (\<exists>s'. createBuild (Suc 0) smallStore (queuedBuild 1 ''/d/z.drv'' 0)
               (emptyState\<lparr>dbBuilds := [queuedRow 1 ''/d/z.drv'' 0]\<rparr>)
             = Ok ((queuedBuild 1 ''/d/z.drv'' 0)\<lparr>finishedInDB := True\<rparr>) s'
         \<and> map row_buildStatus (dbBuilds s') = [Some bsAborted]
         \<and> map row_startTime (dbBuilds s') = map row_stopTime (dbBuilds s')
         \<and> map row_finished (dbBuilds s') = [1]
         \<and> nrBuildsDone s' = 1 \<and> heap s' = [] \<and> registry s' = [])"
  using createBuild_garbage_collected
          [of smallStore "queuedBuild 1 ''/d/z.drv'' 0" 0
              "emptyState\<lparr>dbBuilds := [queuedRow 1 ''/d/z.drv'' 0]\<rparr>"]
  by (auto simp: smallStore_def queuedBuild_def emptyState_def queuedRow_def)

subsection \<open>Claim C2: a build with a step that failed before or that no machine supports\<close>

text \<open>
  C2. When a new step of the expansion of a build has a cached failure or is supported by
  no machine, and the build is not yet finished in the database, the loader ends the build
  at the first such step \<open>r\<close> of \<^verbatim>\<open>newSteps\<close>: the build status is \<^verbatim>\<open>bsFailed\<close> when \<open>r\<close>
  has a cached failure and is the top-level step, \<^verbatim>\<open>bsDepFailed\<close> when it has a cached
  failure and is a dependency, and \<^verbatim>\<open>bsUnsupported\<close> when it has none and no machine
  supports it; a \<^verbatim>\<open>BuildSteps\<close> row with the step and its status is written; the
  \<^verbatim>\<open>Builds\<close> row is finished with that status and \<^verbatim>\<open>isCachedBuild\<close> 1 exactly when
  the status is not \<^verbatim>\<open>bsUnsupported\<close>; \<^verbatim>\<open>finishedInDB\<close> is set; \<^verbatim>\<open>nrBuildsDone\<close>
  grows by one; and the registry stays as it was, also when the call has ended.
\<close>

theorem finishBuild_bad_step:
  assumes "r0 \<in> set (newSteps s)" and "lookup (heap s) r0 = Some st0"
    and "checkCachedFailure x st0 \<or> \<not> list_ex (\<lambda>m. m st0) (machines x)"
    and "\<not> finishedInDB build"
  shows "\<exists>r st buildStatus buildStepStatus s'.
      r \<in> set (newSteps s) \<and> lookup (heap s) r = Some st
      \<and> buildStatus =
          (if checkCachedFailure x st then (if r = a then bsFailed else bsDepFailed)
           else bsUnsupported)
      \<and> buildStepStatus = (if checkCachedFailure x st then bssFailed else bssUnsupported)
      \<and> (\<not> checkCachedFailure x st \<longrightarrow> \<not> list_ex (\<lambda>m. m st) (machines x))
      \<and> finishBuild x build (Some a) s = Ok (build\<lparr>finishedInDB := True\<rparr>) s'
      \<and> dbBuildSteps s' = dbBuildSteps s @
            [\<lparr>bs_build = build_id build, bs_drvPath = drvPath st,
              bs_status = Some buildStepStatus, bs_startTime = None, bs_stopTime = None\<rparr>]
      \<and> dbBuilds s' =
            map (\<lambda>row. if row_id row = build_id build \<and> row_finished row = 0
                   then row\<lparr>row_finished := 1, row_busy := 0,
                          row_buildStatus := Some buildStatus,
                          row_startTime := Some (time0 x), row_stopTime := Some (time0 x),
                          row_isCachedBuild := Some (if buildStatus \<noteq> bsUnsupported then 1 else 0)\<rparr>
                   else row) (dbBuilds s)
      \<and> nrBuildsDone s' = nrBuildsDone s + 1
      \<and> registry s' = registry s
      \<and> registry (leaveFrame s0 s') = registry s"
proof (cases "firstBad x a (newSteps s) s")
  case None
  from firstBad_None [OF None assms(1,2)] assms(3) show ?thesis by simp
next
  case (Some t)
  then obtain r st bs bss where t: "firstBad x a (newSteps s) s = Some (r, st, bs, bss)"
    by (cases t) auto
  from firstBad_Some [OF t] have r: "r \<in> set (newSteps s)" "lookup (heap s) r = Some st"
    and c: "classify x a r st = (bs, bss)" "bs \<noteq> bsSuccess"
    by auto
  from c have bs: "bs = (if checkCachedFailure x st then (if r = a then bsFailed else bsDepFailed)
           else bsUnsupported)"
    and bss: "bss = (if checkCachedFailure x st then bssFailed else bssUnsupported)"
    and un: "\<not> checkCachedFailure x st \<longrightarrow> \<not> list_ex (\<lambda>m. m st) (machines x)"
    by (auto simp: classify_def split: if_splits)
  let ?s' = "(failBuildInDB (build_id build) bs (time0 x) (createBuildStep 0 build st bss s))
               \<lparr>nrBuildsDone := nrBuildsDone s + 1\<rparr>"
  have f: "finishBuild x build (Some a) s = Ok (build\<lparr>finishedInDB := True\<rparr>) ?s'"
    using t assms(4) by (simp add: finishBuild_def)
  show ?thesis
    apply (rule exI [of _ r], rule exI [of _ st], rule exI [of _ bs], rule exI [of _ bss],
        rule exI [of _ ?s'])
    using r bs bss un f
    by (simp add: failBuildInDB_def updateBuilds_def createBuildStep_def)
qed

theorem finishBuild_bad_step_witness:
  "1 \<in> set (newSteps expandedState)
   \<and> lookup (heap expandedState) 1 = Some (loadedStep ''/d/b.drv'' [] ''/o/b'' [])
   \<and> (checkCachedFailure failingStore (loadedStep ''/d/b.drv'' [] ''/o/b'' [])
        \<or> \<not> list_ex (\<lambda>m. m (loadedStep ''/d/b.drv'' [] ''/o/b'' [])) (machines failingStore))
   \<and> \<not> finishedInDB (queuedBuild 1 ''/d/a.drv'' 0)
   \<and> (\<exists>s'. finishBuild failingStore (queuedBuild 1 ''/d/a.drv'' 0) (Some 0) expandedState
              = Ok ((queuedBuild 1 ''/d/a.drv'' 0)\<lparr>finishedInDB := True\<rparr>) s'
          \<and> nrBuildsDone s' = 1 \<and> registry s' = []
          \<and> length (dbBuildSteps s') = 1)"
proof -
  have a: "1 \<in> set (newSteps expandedState)"
    and b: "lookup (heap expandedState) 1 = Some (loadedStep ''/d/b.drv'' [] ''/o/b'' [])"
    and c: "checkCachedFailure failingStore (loadedStep ''/d/b.drv'' [] ''/o/b'' [])
        \<or> \<not> list_ex (\<lambda>m. m (loadedStep ''/d/b.drv'' [] ''/o/b'' [])) (machines failingStore)"
    and d: "\<not> finishedInDB (queuedBuild 1 ''/d/a.drv'' 0)"
    by (simp_all add: model_defs)
  from finishBuild_bad_step [OF a b c d, of 0 expandedState]
  obtain s' where
    "finishBuild failingStore (queuedBuild 1 ''/d/a.drv'' 0) (Some 0) expandedState
       = Ok ((queuedBuild 1 ''/d/a.drv'' 0)\<lparr>finishedInDB := True\<rparr>) s'"
    "nrBuildsDone s' = nrBuildsDone expandedState + 1"
    "registry s' = registry expandedState"
    "length (dbBuildSteps s') = Suc (length (dbBuildSteps expandedState))"
    by force
  then show ?thesis using a b c d
    by (auto simp: expandedState_def queueState_def emptyState_def)
qed

subsection \<open>Claim C4: a build whose outputs are all valid\<close>

text \<open>
  C4, amended. When the derivation path of a build is valid, all outputs of its derivation
  are valid, and the step graph has no step alive for the derivation path,
  \<^verbatim>\<open>createStep\<close> returns nil with the path in \<^verbatim>\<open>finishedDrvs\<close>, and
  \<^verbatim>\<open>createBuild\<close> returns with \<^verbatim>\<open>finishedInDB\<close> set, the \<^verbatim>\<open>Builds\<close> row marked by
  \<^verbatim>\<open>markSucceededBuild\<close> as a cached success, and the registry as it was; no step for
  the path stays alive.
\<close>

theorem createBuild_cached_success:
  assumes "isValidPath x (build_drvPath build)"
    and "readDerivation x (build_drvPath build) = Some d"
    and "allValid x d"
    and "findStep (build_drvPath build) s = None"
  shows "\<exists>s1 s'.
      createStep (Suc n) x (build_drvPath build) (Some (build_id build)) None
          (newFrame (enterBuild build s)) = Ok None s1
      \<and> build_drvPath build \<in> finishedDrvs s1
      \<and> createBuild (Suc (Suc n)) x build s = Ok (build\<lparr>finishedInDB := True\<rparr>) s'
      \<and> dbBuilds s' =
          dbBuilds (markSucceededBuild build (getBuildOutput x d) True (time0 x) (time0 x) s)
      \<and> registry s' = registry s
      \<and> findStep (build_drvPath build) s' = None"
proof -
  let ?p = "build_drvPath build"
  let ?s0 = "newFrame (enterBuild build s)"
  have "?p \<notin> finishedDrvs ?s0" by simp
  moreover have nf: "findStep ?p ?s0 = None" using assms(4) by simp
  ultimately obtain s1 where
    g: "getStep ?p (Some (build_id build)) None ?s0 = Some (length (heap ?s0), True, s1)"
    and c: "createStep (Suc n) x ?p (Some (build_id build)) None ?s0
              = Ok None (dropValid (length (heap ?s0)) ?p d s1)"
    using createStep_all_valid [OF _ _ assms(2,3)] by blast
  let ?s1 = "dropValid (length (heap ?s0)) ?p d s1"
  from c have "finalState (createStep (Suc n) x ?p (Some (build_id build)) None ?s0) = Some ?s1"
    by simp
  then have go: "graphOnly ?s0 ?s1"
    by (rule createStep_graphOnly)
  have ns: "newSteps ?s1 = []"
    using createStep_None_sets(1) [OF c] by simp
  have fin: "finishBuild x build None ?s1
      = Ok (build\<lparr>finishedInDB := True\<rparr>)
           (markSucceededBuild build (getBuildOutput x d) True (time0 x) (time0 x) ?s1)"
    using assms(2) by (simp add: finishBuild_def)
  let ?s3 = "markSucceededBuild build (getBuildOutput x d) True (time0 x) (time0 x) ?s1"
  have cb: "createBuild (Suc (Suc n)) x build s = Ok (build\<lparr>finishedInDB := True\<rparr>) (leaveFrame s ?s3)"
    using assms(1) c ns fin by (simp add: createBuild.simps)
  have db: "dbBuilds (leaveFrame s ?s3)
      = dbBuilds (markSucceededBuild build (getBuildOutput x d) True (time0 x) (time0 x) s)"
    using graphOnly_fields(5) [OF go]
    by (simp add: markSucceededBuild_def updateBuilds_def)
  have reg: "registry (leaveFrame s ?s3) = registry s"
    using graphOnly_fields(1) [OF go] by simp
  have st: "steps s1 = (steps s)(?p \<mapsto> length (heap s))"
    using g by (cases rule: getStep_cases) simp_all
  have "lookup (heap (leaveFrame s ?s3)) (length (heap s)) = None"
    by (simp add: leaveFrame_def lookup_release lookup_dropValid)
  then have fs: "findStep ?p (leaveFrame s ?s3) = None"
    by (simp add: findStep_def st)
  from c cb db reg fs show ?thesis
    by (intro exI [of _ ?s1] exI [of _ "leaveFrame s ?s3"]) simp
qed

theorem createBuild_cached_success_witness:
  "isValidPath validStore (build_drvPath (queuedBuild 1 ''/d/b.drv'' 0))
   \<and> readDerivation validStore (build_drvPath (queuedBuild 1 ''/d/b.drv'' 0))
        = Some (simpleDrv [] ''/o/b'')
   \<and> allValid validStore (simpleDrv [] ''/o/b'')
   \<and> findStep (build_drvPath (queuedBuild 1 ''/d/b.drv'' 0))
        (queueState [queuedRow 1 ''/d/b.drv'' 0]) = None
   \<and> (\<exists>s'. createBuild (Suc (Suc 0)) validStore (queuedBuild 1 ''/d/b.drv'' 0)
               (queueState [queuedRow 1 ''/d/b.drv'' 0])
             = Ok ((queuedBuild 1 ''/d/b.drv'' 0)\<lparr>finishedInDB := True\<rparr>) s'
         \<and> map row_buildStatus (dbBuilds s') = [Some bsSuccess]
         \<and> map row_isCachedBuild (dbBuilds s') = [Some 1]
         \<and> registry s' = [])"
proof -
  have a: "isValidPath validStore (build_drvPath (queuedBuild 1 ''/d/b.drv'' 0))"
    and b: "readDerivation validStore (build_drvPath (queuedBuild 1 ''/d/b.drv'' 0))
        = Some (simpleDrv [] ''/o/b'')"
    and c: "allValid validStore (simpleDrv [] ''/o/b'')"
    and d: "findStep (build_drvPath (queuedBuild 1 ''/d/b.drv'' 0))
        (queueState [queuedRow 1 ''/d/b.drv'' 0]) = None"
    by (simp_all add: model_defs)
  from createBuild_cached_success [OF a b c d, of 0]
  obtain s' where "createBuild (Suc (Suc 0)) validStore (queuedBuild 1 ''/d/b.drv'' 0)
               (queueState [queuedRow 1 ''/d/b.drv'' 0])
             = Ok ((queuedBuild 1 ''/d/b.drv'' 0)\<lparr>finishedInDB := True\<rparr>) s'"
    and "dbBuilds s' = dbBuilds (markSucceededBuild (queuedBuild 1 ''/d/b.drv'' 0)
            (getBuildOutput validStore (simpleDrv [] ''/o/b'')) True (time0 validStore)
            (time0 validStore) (queueState [queuedRow 1 ''/d/b.drv'' 0]))"
    and "registry s' = registry (queueState [queuedRow 1 ''/d/b.drv'' 0])"
    by blast
  then show ?thesis using a b c d
    by (simp add: markSucceededBuild_def updateBuilds_def queueState_def emptyState_def
          queuedRow_def queuedBuild_def)
qed

text \<open>
  C4 as stated fails. In a first pass build 1 of derivation b is admitted, while the output
  of b is not valid. Then the output becomes valid and build 2 of the same derivation is
  queued. In the next pass \<^verbatim>\<open>createStep\<close> finds the step of b alive and returns it:
  build 2 enters the registry with that step as its top level, and its \<^verbatim>\<open>Builds\<close> row
  is not finished.
\<close>

theorem cached_success_counterexample:
  "isValidPath validStore ''/d/b.drv''
   \<and> readDerivation validStore ''/d/b.drv'' = Some (simpleDrv [] ''/o/b'')
   \<and> allValid validStore (simpleDrv [] ''/o/b'')
   \<and> map row_drvPath
         (dbBuilds ((afterPass (Suc (Suc (Suc 0))) smallStore (queueState [queuedRow 1 ''/d/b.drv'' 0]))
            \<lparr>dbBuilds := [queuedRow 1 ''/d/b.drv'' 0, queuedRow 2 ''/d/b.drv'' 0]\<rparr>))
       = [''/d/b.drv'', ''/d/b.drv'']
   \<and> map fst
         (registry (afterPass (Suc (Suc (Suc 0))) validStore
            ((afterPass (Suc (Suc (Suc 0))) smallStore (queueState [queuedRow 1 ''/d/b.drv'' 0]))
               \<lparr>dbBuilds := [queuedRow 1 ''/d/b.drv'' 0, queuedRow 2 ''/d/b.drv'' 0]\<rparr>)))
       = [1, 2]
   \<and> map (toplevel \<circ> snd)
         (registry (afterPass (Suc (Suc (Suc 0))) validStore
            ((afterPass (Suc (Suc (Suc 0))) smallStore (queueState [queuedRow 1 ''/d/b.drv'' 0]))
               \<lparr>dbBuilds := [queuedRow 1 ''/d/b.drv'' 0, queuedRow 2 ''/d/b.drv'' 0]\<rparr>)))
       = [Some 0, Some 0]
   \<and> map row_finished
         (dbBuilds (afterPass (Suc (Suc (Suc 0))) validStore
            ((afterPass (Suc (Suc (Suc 0))) smallStore (queueState [queuedRow 1 ''/d/b.drv'' 0]))
               \<lparr>dbBuilds := [queuedRow 1 ''/d/b.drv'' 0, queuedRow 2 ''/d/b.drv'' 0]\<rparr>)))
       = [0, 0]"
  by (simp add: model_defs)

subsection \<open>Claim C5: a new step and newRunnable\<close>

text \<open>
  C5. When \<^verbatim>\<open>createStep\<close> returns a step that did not exist before the call, the step
  has \<^verbatim>\<open>created\<close> set, and it is in \<^verbatim>\<open>newRunnable\<close> exactly when its \<^verbatim>\<open>deps\<close> are
  empty, that is exactly when it is runnable (created and without dependencies).
\<close>

theorem createStep_new_step_runnable:
  assumes "createStep n x p rb rs s = Ok (Some a) s'"
    and "lookup (heap s) a = None"
    and "a \<notin> set (newRunnable s)"
  shows "\<exists>st. lookup (heap s') a = Some st \<and> created st
            \<and> (a \<in> set (newRunnable s') \<longleftrightarrow> deps st = [])
            \<and> (a \<in> set (newRunnable s') \<longleftrightarrow> runnableStep st)"
proof (cases n)
  case 0
  with assms(1) show ?thesis by simp
next
  case (Suc m)
  from assms(1) [unfolded Suc] show ?thesis
  proof (cases rule: createStep_Ok_cases)
    case (found b)
    then obtain st where "lookup (heap s) a = Some st"
      by (auto elim: createStep_found_result)
    with assms(2) show ?thesis by simp
  next
    case (built b s1 d s3)
    then have ab: "b = a" by simp
    from built(2) have b: "a = length (heap s)"
      unfolding ab by (rule getStep_new_addr)
    from built(2) have nr1: "newRunnable s1 = newRunnable s"
      by (cases rule: getStep_cases) simp_all
    from built(2) have len1: "length (heap s1) = Suc a"
      by (cases rule: getStep_cases) (simp_all add: b)
    have "finalState (createDeps m x a (map fst (inputDrvs d)) (beginStep a d s1)) = Some s3"
      using built(5) ab by simp
    then have "addsAbove (Suc a) (beginStep a d s1) s3"
      by (intro createDeps_addsAbove) (simp_all add: len1)
    then have nr3: "a \<notin> set (newRunnable s3)"
      using assms(3) nr1 by (auto simp: addsAbove_def beginStep_def Let_def)
    from built(2,5,6) [unfolded ab] obtain st where
      "lookup (heap s') a = Some st" "created st"
      "a \<in> set (newRunnable s') \<longleftrightarrow> deps st = [] \<or> a \<in> set (newRunnable s3)"
      by (rule createStep_built_result)
    with nr3 show ?thesis by (auto simp: runnableStep_def)
  qed simp_all
qed

theorem createStep_new_step_runnable_witness:
  "\<exists>s'. createStep (Suc (Suc 0)) smallStore ''/d/b.drv'' (Some 1) None emptyState
           = Ok (Some 0) s'
     \<and> lookup (heap emptyState) 0 = None
     \<and> 0 \<notin> set (newRunnable emptyState)
     \<and> (\<exists>st. lookup (heap s') 0 = Some st \<and> created st
            \<and> (0 \<in> set (newRunnable s') \<longleftrightarrow> deps st = [])
            \<and> (0 \<in> set (newRunnable s') \<longleftrightarrow> runnableStep st))"
proof -
  obtain s' where a:
    "createStep (Suc (Suc 0)) smallStore ''/d/b.drv'' (Some 1) None emptyState = Ok (Some 0) s'"
    by (simp add: model_defs)
  have b: "lookup (heap emptyState) 0 = None"
    and c: "0 \<notin> set (newRunnable emptyState)"
    by (simp_all add: model_defs)
  from createStep_new_step_runnable [OF a b c] a b c show ?thesis by blast
qed

subsection \<open>Claim C7: priorities reach every step below the top-level step\<close>

text \<open>
  C7. After \<^verbatim>\<open>propagatePriorities\<close> on a build with top-level step \<open>t\<close>, every step
  that \<open>t\<close> reaches through \<^verbatim>\<open>deps\<close> has \<^verbatim>\<open>highestGlobalPriority\<close> at least the build's
  \<^verbatim>\<open>globalPriority\<close>, \<^verbatim>\<open>highestLocalPriority\<close> at least its \<^verbatim>\<open>localPriority\<close>,
  \<^verbatim>\<open>lowestBuildID\<close> at most its id, and the build's jobset among its \<^verbatim>\<open>jobsets\<close>. Every
  step \<open>c\<close> of the heap, reached or not, is still there and differs from before only in these
  four fields, each moved in its one direction (\<open>raised\<close>); no step appears; nothing but the
  heap changes. \<^verbatim>\<open>visitDependencies\<close> is the traversal \<open>walk\<close> above.
\<close>

theorem propagatePriorities_reachable:
  assumes "toplevel b = Some t" and "reaches (heap s) t a"
  shows "(\<exists>st'. lookup (heap (propagatePriorities b s)) a = Some st'
            \<and> globalPriority b \<le> highestGlobalPriority st'
            \<and> localPriority b \<le> highestLocalPriority st'
            \<and> lowestBuildID st' \<le> build_id b \<and> jobset b \<in> jobsets st')
       \<and> (case lookup (heap s) c of
            None \<Rightarrow> lookup (heap (propagatePriorities b s)) c = None
          | Some st \<Rightarrow> (\<exists>st'. lookup (heap (propagatePriorities b s)) c = Some st' \<and> raised st st'))
       \<and> propagatePriorities b s = s\<lparr>heap := heap (propagatePriorities b s)\<rparr>"
proof -
  let ?vs = "walk (heap s) [t] [t]"
  have pp: "propagatePriorities b s = fold (\<lambda>a. modify a (bump b)) ?vs s"
    using assms(1) by (simp add: propagatePriorities_def visitDependencies_def)
  from assms(2) have "a \<in> set ?vs" by (rule walk_complete)
  moreover from assms(2) obtain st where st: "lookup (heap s) a = Some st"
    by (cases rule: reaches.cases) auto
  ultimately have one: "\<exists>st'. lookup (heap (propagatePriorities b s)) a = Some st' \<and> bumped b st'"
    using fold_bump [OF st, of b ?vs] by (auto simp: pp)
  have two: "case lookup (heap s) c of
            None \<Rightarrow> lookup (heap (propagatePriorities b s)) c = None
          | Some st \<Rightarrow> (\<exists>st'. lookup (heap (propagatePriorities b s)) c = Some st' \<and> raised st st')"
  proof (cases "lookup (heap s) c")
    case None
    then show ?thesis by (simp add: pp fold_bump_None)
  next
    case (Some sc)
    from fold_bump [OF Some, of b ?vs] Some show ?thesis by (auto simp: pp)
  qed
  have three: "propagatePriorities b s = s\<lparr>heap := heap (propagatePriorities b s)\<rparr>"
    unfolding pp by (rule fold_modify_heap_only)
  from one have "\<exists>st'. lookup (heap (propagatePriorities b s)) a = Some st'
            \<and> globalPriority b \<le> highestGlobalPriority st'
            \<and> localPriority b \<le> highestLocalPriority st'
            \<and> lowestBuildID st' \<le> build_id b \<and> jobset b \<in> jobsets st'"
    by (simp add: bumped_def)
  with two three show ?thesis by blast
qed

text \<open>Build 1 of derivation a at priority 5: the step of b, a dependency of the step of a,
  gets the priority, the id and the jobset.\<close>

theorem propagatePriorities_reachable_witness:
  "toplevel ((queuedBuild 1 ''/d/a.drv'' 5)\<lparr>toplevel := Some 0\<rparr>) = Some 0
   \<and> reaches (heap expandedState) 0 1
   \<and> (\<exists>st'. lookup (heap (propagatePriorities ((queuedBuild 1 ''/d/a.drv'' 5)\<lparr>toplevel := Some 0\<rparr>)
                     expandedState)) 1 = Some st'
          \<and> 5 \<le> highestGlobalPriority st' \<and> lowestBuildID st' \<le> 1
          \<and> (''p'', ''j'') \<in> jobsets st' \<and> drvPath st' = ''/d/b.drv'')"
proof -
  let ?b = "(queuedBuild 1 ''/d/a.drv'' 5)\<lparr>toplevel := Some 0\<rparr>"
  have t: "toplevel ?b = Some 0" by simp
  have "reaches (heap expandedState) 0 0"
    by (rule reaches.start [where st = "loadedStep ''/d/a.drv'' [''/d/b.drv''] ''/o/a'' [1]"])
       (simp add: expandedState_def lookup_def)
  then have r: "reaches (heap expandedState) 0 1"
    by (rule reaches.dep [where st = "loadedStep ''/d/a.drv'' [''/d/b.drv''] ''/o/a'' [1]"
            and st' = "loadedStep ''/d/b.drv'' [] ''/o/b'' []"])
       (simp_all add: expandedState_def lookup_def loadedStep_def)
  have l: "lookup (heap expandedState) 1 = Some (loadedStep ''/d/b.drv'' [] ''/o/b'' [])"
    by (simp add: expandedState_def lookup_def)
  from propagatePriorities_reachable [OF t r, of 1] l
  obtain st' where
    "lookup (heap (propagatePriorities ?b expandedState)) 1 = Some st'"
    "globalPriority ?b \<le> highestGlobalPriority st'" "lowestBuildID st' \<le> build_id ?b"
    "jobset ?b \<in> jobsets st'" "raised (loadedStep ''/d/b.drv'' [] ''/o/b'' []) st'"
    by auto
  moreover from this(5) have "drvPath st' = ''/d/b.drv''"
    by (cases st') (simp add: raised_def loadedStep_def newStep_def)
  ultimately show ?thesis using t r by (auto simp: queuedBuild_def)
qed

subsection \<open>Claim C8: processQueueChange is idempotent\<close>

text \<open>
  C8. \<^verbatim>\<open>processQueueChange\<close> does not write to the database, so a second run reads the
  snapshot of the first (\<open>currentIds\<close>). After the first run every build of the registry has
  its id in the snapshot and a \<^verbatim>\<open>globalPriority\<close> not below the one of the snapshot, and so
  the second run changes nothing: the state after it, with the registry, the builds'
  priorities and all fields of all steps, is the state before it.
\<close>

theorem processQueueChange_idempotent:
  "processQueueChange (processQueueChange s) = processQueueChange s
   \<and> currentIds (processQueueChange s) = currentIds s
   \<and> (\<forall>i b. map_of (registry (processQueueChange s)) i = Some b
         \<longrightarrow> (\<exists>p. map_of (currentIds s) i = Some p \<and> p \<le> globalPriority b))"
proof (intro conjI allI impI)
  show c: "currentIds (processQueueChange s) = currentIds s"
    by (rule currentIds_processQueueChange)
  have "fold (queueChangeStep (currentIds s)) ks (processQueueChange s) = processQueueChange s" for ks
    by (rule fold_queueChangeStep_id) (rule processQueueChange_settled)
  then show "processQueueChange (processQueueChange s) = processQueueChange s"
    by (subst (1) processQueueChange_def) (simp add: c)
next
  fix i b
  assume "map_of (registry (processQueueChange s)) i = Some b"
  with processQueueChange_settled [of s i]
  show "\<exists>p. map_of (currentIds s) i = Some p \<and> p \<le> globalPriority b"
    by (auto simp: settled_def split: option.splits)
qed

text \<open>Build 2 is discarded, build 1 is raised to priority 5; a second run changes nothing.\<close>

theorem processQueueChange_idempotent_witness:
  "processQueueChange (processQueueChange changedQueue) = processQueueChange changedQueue
   \<and> currentIds changedQueue = [(1, 5)]
   \<and> map (\<lambda>(i, b). (i, globalPriority b)) (registry changedQueue) = [(1, 0), (2, 0)]
   \<and> map (\<lambda>(i, b). (i, globalPriority b)) (registry (processQueueChange changedQueue)) = [(1, 5)]"
proof -
  have "currentIds changedQueue = [(1, 5)]"
    by (simp add: currentIds_def changedQueue_def queuedRow_def)
  moreover have "map (\<lambda>(i, b). (i, globalPriority b)) (registry changedQueue) = [(1, 0), (2, 0)]"
    by (simp add: changedQueue_def queuedBuild_def)
  moreover have "map (\<lambda>(i, b). (i, globalPriority b)) (registry (processQueueChange changedQueue))
      = [(1, 5)]"
    by (simp add: processQueueChange_def queueChangeStep_def currentIds_def changedQueue_def
          queuedRow_def queuedBuild_def AList.delete_eq Let_def)
  moreover from processQueueChange_idempotent [of changedQueue]
  have "processQueueChange (processQueueChange changedQueue) = processQueueChange changedQueue"
    by (rule conjunct1)
  ultimately show ?thesis by simp
qed

subsection \<open>Claim C9: the counter of builds read\<close>

text \<open>
  C9, amended. When a pass of \<^verbatim>\<open>getQueuedBuilds\<close> returns, \<^verbatim>\<open>nrBuildsRead\<close> has grown by
  the number of builds that the pass has read as new, each of which the loader was called
  on once: the builds that were admitted, and as well those that were finished as aborted,
  as cached successes, as failed or as unsupported.
\<close>

theorem getQueuedBuilds_counts_loaded:
  assumes "getQueuedBuilds n x s = Ok u s'"
  shows "nrBuildsRead s' = nrBuildsRead s + card (newBuildIds s)"
proof -
  let ?s0 = "s\<lparr>newIDs := [], newBuildsByID := [], newBuildsByPath := [], newRunnable := []\<rparr>"
  let ?rows = "queuedRows (lastBuildId s) (dbBuilds s)"
  from assms obtain s1 s2 where rr: "readRows x ?rows ?s0 = Ok () s1"
    and lb: "loadBuilds n x (newIDs s1) s1 = Ok () s2"
    and s': "s' = leavePass s2"
    by (auto simp: getQueuedBuilds_def split: outcome.splits)
  have k0: "keyed ?s0" "fst ` set (newBuildsByID ?s0) \<subseteq> set (newIDs ?s0)"
    by (simp_all add: keyed_def)
  from readRows_keys [OF rr k0] have k1: "keyed s1"
    "fst ` set (newBuildsByID s1) \<subseteq> set (newIDs s1)"
    "nrBuildsRead s1 = nrBuildsRead ?s0"
    "fst ` set (newBuildsByID s1) =
       fst ` set (newBuildsByID ?s0) \<union> row_id ` {r \<in> set ?rows. rowIsNew ?s0 r}"
    by blast+
  have "rowIsNew ?s0 r = rowIsNew s r" for r
    by (simp add: rowIsNew_def)
  with k1(4) have keys: "fst ` set (newBuildsByID s1) = newBuildIds s"
    by (simp add: newBuildIds_def)
  from k1(1) have "distinct (map fst (newBuildsByID s1))"
    by (simp add: keyed_def)
  then have "card (set (map fst (newBuildsByID s1))) = length (map fst (newBuildsByID s1))"
    by (rule distinct_card)
  with keys have len: "length (newBuildsByID s1) = card (newBuildIds s)"
    by simp
  from loadBuilds_count [OF lb k1(1,2)] have "nrBuildsRead s2 = nrBuildsRead s1 + length (newBuildsByID s1)"
    by simp
  with len k1(3) s' show ?thesis
    by (simp add: leavePass_def)
qed

theorem getQueuedBuilds_counts_loaded_witness:
  "\<exists>s'. getQueuedBuilds (Suc (Suc (Suc 0))) smallStore
            (queueState [queuedRow 1 ''/d/a.drv'' 5, queuedRow 2 ''/d/z.drv'' 7]) = Ok () s'
     \<and> nrBuildsRead s' = 2 \<and> map fst (registry s') = [1]
     \<and> nrBuildsRead s' =
         nrBuildsRead (queueState [queuedRow 1 ''/d/a.drv'' 5, queuedRow 2 ''/d/z.drv'' 7])
         + card (newBuildIds (queueState [queuedRow 1 ''/d/a.drv'' 5, queuedRow 2 ''/d/z.drv'' 7]))"
proof -
  have "\<exists>s'. getQueuedBuilds (Suc (Suc (Suc 0))) smallStore
            (queueState [queuedRow 1 ''/d/a.drv'' 5, queuedRow 2 ''/d/z.drv'' 7]) = Ok () s'
      \<and> nrBuildsRead s' = 2 \<and> map fst (registry s') = [1]"
    by (simp add: model_defs)
  then obtain s' where ab: "getQueuedBuilds (Suc (Suc (Suc 0))) smallStore
            (queueState [queuedRow 1 ''/d/a.drv'' 5, queuedRow 2 ''/d/z.drv'' 7]) = Ok () s'
      \<and> nrBuildsRead s' = 2 \<and> map fst (registry s') = [1]" ..
  then have a: "getQueuedBuilds (Suc (Suc (Suc 0))) smallStore
            (queueState [queuedRow 1 ''/d/a.drv'' 5, queuedRow 2 ''/d/z.drv'' 7]) = Ok () s'"
    by (rule conjunct1)
  have c: "nrBuildsRead s' =
         nrBuildsRead (queueState [queuedRow 1 ''/d/a.drv'' 5, queuedRow 2 ''/d/z.drv'' 7])
         + card (newBuildIds (queueState [queuedRow 1 ''/d/a.drv'' 5, queuedRow 2 ''/d/z.drv'' 7]))"
    using a by (rule getQueuedBuilds_counts_loaded)
  show ?thesis
  proof (intro exI [of _ s'] conjI)
    show "getQueuedBuilds (Suc (Suc (Suc 0))) smallStore
            (queueState [queuedRow 1 ''/d/a.drv'' 5, queuedRow 2 ''/d/z.drv'' 7]) = Ok () s'"
      by (rule a)
    show "nrBuildsRead s' = 2"
      using ab by (elim conjE)
    show "map fst (registry s') = [1]"
      using ab by (elim conjE)
    show "nrBuildsRead s' =
         nrBuildsRead (queueState [queuedRow 1 ''/d/a.drv'' 5, queuedRow 2 ''/d/z.drv'' 7])
         + card (newBuildIds (queueState [queuedRow 1 ''/d/a.drv'' 5, queuedRow 2 ''/d/z.drv'' 7]))"
      by (rule c)
  qed
qed

text \<open>
  C9 as stated fails. The queue holds one build, whose derivation is not a valid path. The
  pass finishes it as aborted and admits no build, and \<^verbatim>\<open>nrBuildsRead\<close> grows by one:
  \<^verbatim>\<open>nrAdded\<close> is incremented at the top of the loader (line 106), whatever becomes of
  the build.
\<close>

theorem nrBuildsRead_counterexample:
  "nrBuildsRead (queueState [queuedRow 1 ''/d/z.drv'' 0]) = 0
   \<and> getQueuedBuilds (Suc (Suc (Suc 0))) smallStore (queueState [queuedRow 1 ''/d/z.drv'' 0])
       = Ok () (afterPass (Suc (Suc (Suc 0))) smallStore (queueState [queuedRow 1 ''/d/z.drv'' 0]))
   \<and> registry (afterPass (Suc (Suc (Suc 0))) smallStore (queueState [queuedRow 1 ''/d/z.drv'' 0])) = []
   \<and> nrBuildsRead (afterPass (Suc (Suc (Suc 0))) smallStore (queueState [queuedRow 1 ''/d/z.drv'' 0])) = 1"
  by (simp add: model_defs)

subsection \<open>Claim C10: the counter of finished builds on the cached-success path\<close>

text \<open>
  C10. When \<^verbatim>\<open>createStep\<close> returned nil for the build, the call of \<^verbatim>\<open>createBuild\<close>
  leaves \<^verbatim>\<open>nrBuildsDone\<close> as it was (and the build finished). Of the ways the loader
  finishes a build, the one for a garbage-collected derivation adds one to the counter, and
  lines 143 to 223 add one exactly when a new step is bad and the build was not finished
  before: nothing is added for a cached success. Here \<^verbatim>\<open>markSucceededBuild\<close> is the
  model of the spec, which gives it no effect on the counter.
\<close>

theorem createBuild_cached_counter:
  assumes "createBuild (Suc n) x build s = Ok b' s'"
    and "isValidPath x (build_drvPath build)"
    and "createStep n x (build_drvPath build) (Some (build_id build)) None
           (newFrame (enterBuild build s)) = Ok None s1"
  shows "nrBuildsDone s' = nrBuildsDone s \<and> finishedInDB b'
    \<and> (\<forall>t. nrBuildsDone (abortBuild x build t) = nrBuildsDone t + 1)
    \<and> (\<forall>step t b2 t2. finishBuild x build step t = Ok b2 t2 \<longrightarrow>
          nrBuildsDone t2 = nrBuildsDone t +
            (case step of
               None \<Rightarrow> 0
             | Some a \<Rightarrow>
                 if firstBad x a (newSteps t) t \<noteq> None \<and> \<not> finishedInDB build then 1 else 0))"
proof -
  have ns: "newSteps s1 = []"
    using createStep_None_sets(1) [OF assms(3)] by simp
  have "finalState (createStep n x (build_drvPath build) (Some (build_id build)) None
           (newFrame (enterBuild build s))) = Some s1"
    using assms(3) by simp
  then have go: "graphOnly (newFrame (enterBuild build s)) s1"
    by (rule createStep_graphOnly)
  from assms ns obtain s3 where f: "finishBuild x build None s1 = Ok b' s3"
    and s': "s' = leaveFrame s s3"
    by (auto simp: createBuild.simps split: outcome.splits)
  from finishBuild_counter [OF f] have "nrBuildsDone s3 = nrBuildsDone s1" by simp
  with s' graphOnly_fields(2) [OF go] have "nrBuildsDone s' = nrBuildsDone s" by simp
  moreover from f have "finishedInDB b'"
    by (auto simp: finishBuild_def split: option.splits)
  moreover have "nrBuildsDone (abortBuild x build t) = nrBuildsDone t + 1" for t
    by (simp add: abortBuild_def)
  ultimately show ?thesis
    using finishBuild_counter by blast
qed

theorem createBuild_cached_counter_witness:
  "\<exists>b' s' s1.
     createBuild (Suc (Suc 0)) validStore (queuedBuild 1 ''/d/b.drv'' 0)
        (queueState [queuedRow 1 ''/d/b.drv'' 0]) = Ok b' s'
     \<and> isValidPath validStore (build_drvPath (queuedBuild 1 ''/d/b.drv'' 0))
     \<and> createStep (Suc 0) validStore (build_drvPath (queuedBuild 1 ''/d/b.drv'' 0))
           (Some (build_id (queuedBuild 1 ''/d/b.drv'' 0))) None
           (newFrame (enterBuild (queuedBuild 1 ''/d/b.drv'' 0)
              (queueState [queuedRow 1 ''/d/b.drv'' 0]))) = Ok None s1
     \<and> nrBuildsDone s' = 0 \<and> finishedInDB b'"
proof -
  obtain b' s' where a:
    "createBuild (Suc (Suc 0)) validStore (queuedBuild 1 ''/d/b.drv'' 0)
        (queueState [queuedRow 1 ''/d/b.drv'' 0]) = Ok b' s'"
    by (simp add: model_defs)
  have b: "isValidPath validStore (build_drvPath (queuedBuild 1 ''/d/b.drv'' 0))"
    by (simp add: model_defs)
  obtain s1 where c:
    "createStep (Suc 0) validStore (build_drvPath (queuedBuild 1 ''/d/b.drv'' 0))
           (Some (build_id (queuedBuild 1 ''/d/b.drv'' 0))) None
           (newFrame (enterBuild (queuedBuild 1 ''/d/b.drv'' 0)
              (queueState [queuedRow 1 ''/d/b.drv'' 0]))) = Ok None s1"
    by (simp add: model_defs)
  from createBuild_cached_counter [OF a b c]
  have "nrBuildsDone s' = nrBuildsDone (queueState [queuedRow 1 ''/d/b.drv'' 0])"
    and "finishedInDB b'"
    by simp_all
  then have "nrBuildsDone s' = 0" "finishedInDB b'"
    by (simp_all add: queueState_def emptyState_def)
  with a b c show ?thesis by blast
qed

end
